theory Spec2Isabelle
  imports Main
begin

section \<open>Strings and the regular expressions of \<^verbatim>\<open>file-utils.ts\<close>\<close>

text \<open>
  A JavaScript string is modelled as a \<^typ>\<open>string\<close>, one \<^typ>\<open>char\<close> per code unit.
  The regular expressions of the source are all built from literal characters,
  \<^verbatim>\<open>+\<close> on a character class, \<^verbatim>\<open>?\<close>, alternation, sequence and \<^verbatim>\<open>$\<close>; they are
  written as terms of \<open>re\<close> and run by a backtracking matcher that lists the possible
  remainders of the input in the order in which a backtracking engine tries them
  (greedy first), so the head of the list is the match JavaScript reports.
\<close>

definition is_digit :: "char \<Rightarrow> bool" where
  "is_digit c = (let n = (of_char c :: nat) in 48 \<le> n \<and> n \<le> 57)"

definition is_upper :: "char \<Rightarrow> bool" where
  "is_upper c = (let n = (of_char c :: nat) in 65 \<le> n \<and> n \<le> 90)"

definition is_lower :: "char \<Rightarrow> bool" where
  "is_lower c = (let n = (of_char c :: nat) in 97 \<le> n \<and> n \<le> 122)"

text \<open>The class \<^verbatim>\<open>[a-zA-Z0-9.]\<close>.\<close>

definition is_prerelease_char :: "char \<Rightarrow> bool" where
  "is_prerelease_char c = (is_lower c \<or> is_upper c \<or> is_digit c \<or> c = CHR ''.'')"

text \<open>The class \<^verbatim>\<open>[^.]\<close>.\<close>

definition not_dot :: "char \<Rightarrow> bool" where
  "not_dot c = (c \<noteq> CHR ''.'')"

text \<open>
  Case folding of the \<^verbatim>\<open>i\<close> flag. Every literal of the source's case-insensitive
  expressions is ASCII, and without the \<^verbatim>\<open>u\<close> flag no character above 127 is
  canonicalised to an ASCII one, so folding the ASCII letters is what decides a match.
\<close>

definition to_lower :: "char \<Rightarrow> char" where
  "to_lower c = (if is_upper c then char_of ((of_char c :: nat) + 32) else c)"

definition eq_char :: "bool \<Rightarrow> char \<Rightarrow> char \<Rightarrow> bool" where
  "eq_char ci c x = (if ci then to_lower x = to_lower c else x = c)"

datatype re =
    Lit char
  | PlusCls "char \<Rightarrow> bool"
  | Seq re re
  | Alt re re
  | Opt re
  | Eol
  | Eps

text \<open>\<^verbatim>\<open>[cls]+\<close>: one or more characters of the class, the longest run first.\<close>

primrec plus_cls :: "(char \<Rightarrow> bool) \<Rightarrow> string \<Rightarrow> string list" where
  "plus_cls p [] = []"
| "plus_cls p (x # xs) = (if p x then plus_cls p xs @ [xs] else [])"

text \<open>
  \<open>ms ci r s\<close>: the remainders of \<open>s\<close> after a match of \<open>r\<close> at the start of \<open>s\<close>,
  in backtracking order; \<open>ci\<close> is the \<^verbatim>\<open>i\<close> flag.
\<close>

primrec ms :: "bool \<Rightarrow> re \<Rightarrow> string \<Rightarrow> string list" where
  "ms ci (Lit c) s = (case s of [] \<Rightarrow> [] | x # xs \<Rightarrow> if eq_char ci c x then [xs] else [])"
| "ms ci (PlusCls p) s = plus_cls p s"
| "ms ci (Seq a b) s = concat (map (ms ci b) (ms ci a s))"
| "ms ci (Alt a b) s = ms ci a s @ ms ci b s"
| "ms ci (Opt a) s = ms ci a s @ [s]"
| "ms ci Eol s = (if s = [] then [[]] else [])"
| "ms ci Eps s = [s]"

text \<open>A word as the sequence of its literals.\<close>

primrec lit :: "string \<Rightarrow> re" where
  "lit [] = Eps"
| "lit (c # cs) = Seq (Lit c) (lit cs)"

text \<open>
  \<^verbatim>\<open>/a(b)/.exec(s)\<close> for an expression \<open>a\<close> followed by one capture group \<open>b\<close>: the start
  positions are tried from the left, and at the first one where the whole expression
  matches the result is (text before the match, text matched by \<open>a\<close>, text captured by
  \<open>b\<close>, text after the match). \<open>None\<close> is JavaScript's \<^verbatim>\<open>null\<close>.
\<close>

definition match_here :: "bool \<Rightarrow> re \<Rightarrow> re \<Rightarrow> string \<Rightarrow> (string \<times> string) list" where
  "match_here ci a b s = concat (map (\<lambda>s1. map (\<lambda>r. (s1, r)) (ms ci b s1)) (ms ci a s))"

fun exec_from :: "bool \<Rightarrow> re \<Rightarrow> re \<Rightarrow> string \<Rightarrow> string \<Rightarrow>
    (string \<times> string \<times> string \<times> string) option" where
  "exec_from ci a b pre s =
     (case match_here ci a b s of
        (s1, r) # _ \<Rightarrow>
          Some (pre, take (length s - length s1) s, take (length s1 - length r) s1, r)
      | [] \<Rightarrow> (case s of [] \<Rightarrow> None | x # xs \<Rightarrow> exec_from ci a b (pre @ [x]) xs))"

definition exec :: "bool \<Rightarrow> re \<Rightarrow> re \<Rightarrow> string \<Rightarrow> (string \<times> string \<times> string \<times> string) option" where
  "exec ci a b s = exec_from ci a b [] s"

text \<open>A regular expression with no capture group matches when \<^verbatim>\<open>exec\<close> is not null.\<close>

definition test :: "bool \<Rightarrow> re \<Rightarrow> string \<Rightarrow> bool" where
  "test ci r s = (exec ci r Eps s \<noteq> None)"

text \<open>\<^verbatim>\<open>s.replace(r, "")\<close> with a non-global expression: the first match is removed.\<close>

definition replace_empty :: "re \<Rightarrow> string \<Rightarrow> string" where
  "replace_empty r s =
     (case exec False r Eps s of None \<Rightarrow> s | Some (pre, m, g, post) \<Rightarrow> pre @ post)"

section \<open>\<^verbatim>\<open>file-utils.ts\<close>: the two heuristics on file names\<close>

text \<open>\<^verbatim>\<open>/arm64|aarch64/i\<close>, \<^verbatim>\<open>/x64|x86_64|amd64/i\<close>, \<^verbatim>\<open>/x86|ia32|i386/i\<close>, \<^verbatim>\<open>/universal/i\<close>.\<close>

definition re_arm :: re where
  "re_arm = Alt (lit ''arm64'') (lit ''aarch64'')"

definition re_x64 :: re where
  "re_x64 = Alt (lit ''x64'') (Alt (lit ''x86_64'') (lit ''amd64''))"

definition re_x86 :: re where
  "re_x86 = Alt (lit ''x86'') (Alt (lit ''ia32'') (lit ''i386''))"

definition re_universal :: re where
  "re_universal = lit ''universal''"

definition extractArchFromFilename :: "string \<Rightarrow> string option" where
  "extractArchFromFilename filename =
     (if test True re_arm filename then Some ''arm64''
      else if test True re_x64 filename then Some ''x64''
      else if test True re_x86 filename then Some ''ia32''
      else if test True re_universal filename then Some ''universal''
      else None)"

text \<open>\<^verbatim>\<open>/\.[^.]+$/\<close>\<close>

definition re_ext :: re where
  "re_ext = Seq (Lit CHR ''.'') (Seq (PlusCls not_dot) Eol)"

text \<open>\<^verbatim>\<open>\d+\.\d+\.\d+\<close>\<close>

definition re_core :: re where
  "re_core = Seq (PlusCls is_digit) (Seq (Lit CHR ''.'')
               (Seq (PlusCls is_digit) (Seq (Lit CHR ''.'') (PlusCls is_digit))))"

text \<open>\<^verbatim>\<open>(?:-[a-zA-Z0-9.]+)?\<close>\<close>

definition re_prerelease :: re where
  "re_prerelease = Opt (Seq (Lit CHR ''-'') (PlusCls is_prerelease_char))"

text \<open>
  \<^verbatim>\<open>/v?(\d+\.\d+\.\d+(?:-[a-zA-Z0-9.]+)?)/\<close> and \<^verbatim>\<open>/v?(\d+\.\d+\.\d+)/\<close>: the prefix
  \<^verbatim>\<open>v?\<close> and the capture group are the two expressions handed to \<open>exec\<close>; the
  function returns the text of group 1.
\<close>

definition group1 :: "(string \<times> string \<times> string \<times> string) option \<Rightarrow> string option" where
  "group1 m = (case m of None \<Rightarrow> None | Some (pre, m0, g, post) \<Rightarrow> Some g)"

definition extractVersionFromFilename :: "string \<Rightarrow> string option" where
  "extractVersionFromFilename filename =
     (let nameWithoutExt = replace_empty re_ext filename;
          versionMatchFull =
            exec False (Opt (Lit CHR ''v'')) (Seq re_core re_prerelease) nameWithoutExt
      in case group1 versionMatchFull of
           Some v \<Rightarrow> Some v
         | None \<Rightarrow>
             group1 (exec False (Opt (Lit CHR ''v'')) re_core nameWithoutExt))"

section \<open>Node's \<^verbatim>\<open>path.basename\<close> and \<^verbatim>\<open>path.join\<close> (POSIX flavour) and \<^verbatim>\<open>String\<close>\<close>

text \<open>
  \<^verbatim>\<open>path.basename(p)\<close>: trailing slashes are dropped, then the text after the last
  slash is returned.
\<close>

definition basename :: "string \<Rightarrow> string" where
  "basename p =
     rev (takeWhile (\<lambda>c. c \<noteq> CHR ''/'') (dropWhile (\<lambda>c. c = CHR ''/'') (rev p)))"

primrec split_slash :: "string \<Rightarrow> string \<Rightarrow> string list" where
  "split_slash cur [] = [cur]"
| "split_slash cur (x # xs) =
     (if x = CHR ''/'' then cur # split_slash [] xs else split_slash (cur @ [x]) xs)"

text \<open>
  \<^verbatim>\<open>normalizeString\<close>: empty segments and \<^verbatim>\<open>.\<close> are skipped, \<^verbatim>\<open>..\<close> removes the
  segment before it, or is kept when there is none to remove and the path is relative.
\<close>

definition normalize_step :: "bool \<Rightarrow> string list \<Rightarrow> string \<Rightarrow> string list" where
  "normalize_step allowAboveRoot res seg =
     (if seg = [] \<or> seg = ''.'' then res
      else if seg = ''..'' then
        (if res \<noteq> [] \<and> last res \<noteq> ''..'' then butlast res
         else if allowAboveRoot then res @ [''..''] else res)
      else res @ [seg])"

primrec join_slash :: "string list \<Rightarrow> string" where
  "join_slash [] = []"
| "join_slash (x # xs) = (if xs = [] then x else x @ ''/'' @ join_slash xs)"

definition normalize :: "string \<Rightarrow> string" where
  "normalize p =
     (if p = [] then ''.''
      else
        let isAbsolute = (hd p = CHR ''/'');
            trailingSeparator = (last p = CHR ''/'');
            q = join_slash (foldl (normalize_step (\<not> isAbsolute)) [] (split_slash [] p))
        in if q = [] then (if isAbsolute then ''/'' else if trailingSeparator then ''./'' else ''.'')
           else (if isAbsolute then ''/'' else []) @ q @ (if trailingSeparator then ''/'' else []))"

text \<open>\<^verbatim>\<open>path.join(a, b)\<close>: the non-empty arguments joined by a slash, then normalised.\<close>

definition path_join :: "string \<Rightarrow> string \<Rightarrow> string" where
  "path_join a b =
     (if a = [] \<and> b = [] then ''.''
      else if a = [] then normalize b
      else if b = [] then normalize a
      else normalize (a @ ''/'' @ b))"

text \<open>\<^verbatim>\<open>String(n)\<close> for a natural number and for an integer: decimal digits.\<close>

fun String_nat :: "nat \<Rightarrow> string" where
  "String_nat n =
     (if n < 10 then [char_of (48 + n)]
      else String_nat (n div 10) @ [char_of (48 + n mod 10)])"

declare String_nat.simps [simp del]

definition String_int :: "int \<Rightarrow> string" where
  "String_int i = (if i < 0 then ''-'' @ String_nat (nat (- i)) else String_nat (nat i))"

section \<open>\<^verbatim>\<open>types.ts\<close>\<close>

text \<open>
  The interfaces of \<^verbatim>\<open>types.ts\<close>. A field declared with \<^verbatim>\<open>?\<close> is an option (\<open>None\<close> is
  \<^verbatim>\<open>undefined\<close>). The fields of a file entry carry the prefix \<open>f_\<close> and those of the
  manifest the prefix \<open>m_\<close>, since both interfaces have \<^verbatim>\<open>sha512\<close> and \<^verbatim>\<open>size\<close>.
  \<^verbatim>\<open>secretKeyPath\<close> is declared a \<^verbatim>\<open>string\<close>; it is an option here because the function
  tests it with \<^verbatim>\<open>!secretKeyPath\<close>, which a caller from JavaScript can reach with the
  field left out.
\<close>

record ReleaseFile =
  f_url :: string
  f_sha512 :: string
  f_size :: nat
  f_arch :: "string option"

record ReleaseManifest =
  m_version :: string
  m_updaterVersion :: string
  m_schemaVersion :: nat
  m_releaseDate :: string
  m_files :: "ReleaseFile list"
  m_releaseNotes :: "string option"
  m_releaseName :: "string option"
  m_path :: "string option"
  m_sha512 :: "string option"
  m_size :: "nat option"

datatype platform = Mac | Win | Linux

record CreateMetadataOptions =
  distributables :: "string list"
  secretKeyPath :: "string option"
  autoUpdaterCompat :: "bool option"
  releaseNotes :: "string option"
  releaseNotesPath :: "string option"
  outputDir :: "string option"
  updaterVersion :: "string option"
  appVersion :: "string option"
  baseUrl :: "string option"
  platform :: "platform option"
  password :: "string option"
  verbose :: "bool option"

section \<open>The outside world and the trace of effects\<close>

text \<open>
  Every call a run makes to the outside is an event appended to a trace, in the order in
  which it happens: console output, the calls of \<^verbatim>\<open>fs\<close>, the call of the YAML library's
  \<^verbatim>\<open>stringify\<close> with the manifest object, and the life of each child process (its
  \<^verbatim>\<open>spawn\<close> with command, arguments and the \<^verbatim>\<open>stdio\<close> setting for stdin, stdout and
  stderr, the writes to its stdin, what it prints on the streams it inherits, and its
  \<^verbatim>\<open>close\<close> event with the exit code, \<^verbatim>\<open>null\<close> when a signal ended it). The setting
  \<^verbatim>\<open>stdio: "inherit"\<close> is Node's shorthand for inheriting all three streams.
\<close>

datatype stdio = Pipe | Inherit

datatype event =
    ConsoleLog string
  | ConsoleError string
  | ReadFile string
  | CreateReadStream string
  | Stat string
  | Mkdir string
  | WriteFile string string
  | Stringify ReleaseManifest
  | Spawn string "string list" "stdio list"
  | StdinWrite string
  | StdinEnd
  | ChildOutput string
  | Close "int option"

text \<open>
  What a child process does is decided outside the program: the text it prints and the
  code it exits with. It may depend on everything that happened before it is waited for
  (its arguments and its input are in the trace); \<open>None\<close> is a child that never exits.
\<close>

record child_run =
  printed :: string
  exit_code :: "int option"

text \<open>
  The file system, the clock, the YAML library and the signer. A failing file operation
  gives the message of the error it raises. \<^verbatim>\<open>spawn\<close> itself failing (no executable) is
  outside the model.
\<close>

record world =
  sha512_of :: "string \<Rightarrow> string + string"
  size_of :: "string \<Rightarrow> string + nat"
  content_of :: "string \<Rightarrow> string + string"
  mkdir_error :: "string \<Rightarrow> string option"
  writeFile_error :: "string \<Rightarrow> string \<Rightarrow> string option"
  toISOString_now :: string
  stringify :: "ReleaseManifest \<Rightarrow> string"
  child :: "event list \<Rightarrow> child_run option"

text \<open>
  A promise settles as resolved with a value or rejected with \<^verbatim>\<open>new Error(message)\<close>, or
  stays pending for ever. \<open>await\<close> continues with the value of a resolved promise and
  passes the other two on, as \<^verbatim>\<open>await\<close> in an \<^verbatim>\<open>async\<close> function does.
\<close>

datatype 'a outcome = Resolved 'a | Rejected string | Pending

definition await :: "'a outcome \<times> event list \<Rightarrow> ('a \<Rightarrow> event list \<Rightarrow> 'b outcome \<times> event list)
    \<Rightarrow> 'b outcome \<times> event list" where
  "await p k =
     (case p of
        (Resolved x, tr) \<Rightarrow> k x tr
      | (Rejected e, tr) \<Rightarrow> (Rejected e, tr)
      | (Pending, tr) \<Rightarrow> (Pending, tr))"

text \<open>JavaScript's truthiness of an optional string: defined and not empty.\<close>

definition truthy :: "string option \<Rightarrow> bool" where
  "truthy x = (case x of None \<Rightarrow> False | Some s \<Rightarrow> s \<noteq> [])"

text \<open>A destructuring default: it replaces \<^verbatim>\<open>undefined\<close> only.\<close>

definition default_to :: "'a \<Rightarrow> 'a option \<Rightarrow> 'a" where
  "default_to d x = (case x of None \<Rightarrow> d | Some v \<Rightarrow> v)"

section \<open>\<^verbatim>\<open>file-utils.ts\<close>: reading files\<close>

text \<open>
  \<^verbatim>\<open>getFileInfo\<close> starts the hashing stream and the \<^verbatim>\<open>stat\<close> call together and needs both;
  when both fail the model reports the hashing error.
\<close>

definition getFileInfo :: "world \<Rightarrow> string \<Rightarrow> string + (string \<times> nat)" where
  "getFileInfo w filePath =
     (case sha512_of w filePath of
        Inl e \<Rightarrow> Inl e
      | Inr digest \<Rightarrow>
          (case size_of w filePath of Inl e \<Rightarrow> Inl e | Inr n \<Rightarrow> Inr (digest, n)))"

definition readReleaseNotes :: "world \<Rightarrow> string option \<Rightarrow> event list \<Rightarrow>
    string option outcome \<times> event list" where
  "readReleaseNotes w notesPath tr =
     (if \<not> truthy notesPath then (Resolved None, tr)
      else
        let p = the notesPath in
        (case content_of w p of
           Inr content \<Rightarrow> (Resolved (Some content), tr @ [ReadFile p])
         | Inl errorMessage \<Rightarrow>
             (Rejected (''Failed to read release notes from '' @ p @ '': '' @ errorMessage),
              tr @ [ReadFile p])))"

section \<open>\<^verbatim>\<open>manifest.ts\<close>: \<^verbatim>\<open>signFile\<close>\<close>

definition minisign_args :: "string \<Rightarrow> string \<Rightarrow> string list" where
  "minisign_args keyPath filePath = [''-S'', ''-s'', keyPath, ''-m'', filePath]"

text \<open>
  The promise on the child's \<^verbatim>\<open>close\<close> event. The two branches of \<^verbatim>\<open>signFile\<close> print the
  exit code differently: \<^verbatim>\<open>String(code)\<close> with a password, \<^verbatim>\<open>String(code ?? "unknown")\<close>
  without.
\<close>

definition String_code :: "bool \<Rightarrow> int option \<Rightarrow> string" where
  "String_code explicit code =
     (case code of
        Some c \<Rightarrow> String_int c
      | None \<Rightarrow> if explicit then ''null'' else ''unknown'')"

definition on_close :: "world \<Rightarrow> bool \<Rightarrow> event list \<Rightarrow> unit outcome \<times> event list" where
  "on_close w explicit tr =
     (case child w tr of
        None \<Rightarrow> (Pending, tr)
      | Some c \<Rightarrow>
          let tr' = tr @ [ChildOutput (printed c), Close (exit_code c)] in
          if exit_code c = Some 0 then (Resolved (), tr')
          else (Rejected (''minisign process exited with code ''
                  @ String_code explicit (exit_code c)), tr'))"

text \<open>The body of the \<^verbatim>\<open>try\<close> block, up to the awaited promise.\<close>

definition signFile_try :: "world \<Rightarrow> string \<Rightarrow> string \<Rightarrow> string option \<Rightarrow> event list \<Rightarrow>
    unit outcome \<times> event list" where
  "signFile_try w filePath keyPath pass tr =
     (let tr1 = tr @ [ConsoleLog (''Signing file: '' @ basename filePath)] in
      if truthy pass then
        on_close w True
          (tr1 @ [ConsoleLog ''Using provided password for key decryption'',
                  Spawn ''minisign'' (minisign_args keyPath filePath) [Pipe, Inherit, Inherit],
                  StdinWrite (the pass @ [CHR 0x0A]),
                  StdinEnd])
      else
        on_close w False
          (tr1 @ [ConsoleLog ''You may need to enter password in the terminal if prompted'',
                  Spawn ''minisign'' (minisign_args keyPath filePath)
                    [Inherit, Inherit, Inherit]]))"

definition signFile :: "world \<Rightarrow> string \<Rightarrow> string \<Rightarrow> string option \<Rightarrow> event list \<Rightarrow>
    unit outcome \<times> event list" where
  "signFile w filePath keyPath pass tr =
     (case signFile_try w filePath keyPath pass tr of
        (Resolved u, tr') \<Rightarrow>
          (Resolved (), tr' @ [ConsoleLog (''Successfully signed: '' @ basename filePath)])
      | (Rejected message, tr') \<Rightarrow>
          (Rejected (''Failed to sign file with minisign: '' @ message),
           tr' @ [ConsoleError (''Error signing file: '' @ basename filePath)]
               @ (if message \<noteq> [] then [ConsoleError message] else []))
      | (Pending, tr') \<Rightarrow> (Pending, tr'))"

section \<open>\<^verbatim>\<open>manifest.ts\<close>: \<^verbatim>\<open>createReleaseMetadata\<close>\<close>

text \<open>The helper \<^verbatim>\<open>log\<close>: it prints only when \<^verbatim>\<open>verbose\<close> is set.\<close>

definition log :: "bool \<Rightarrow> string \<Rightarrow> event list \<Rightarrow> event list" where
  "log v message tr = (if v then tr @ [ConsoleLog (''[ToDesktop Release] '' @ message)] else tr)"

text \<open>
  \<^verbatim>\<open>Promise.all(distributables.map(async (filePath, index) => ...))\<close>. Each callback runs
  up to its first \<^verbatim>\<open>await\<close> when it is called, so the files are announced and their
  reads are started in input order (\<open>inspect_start\<close>). The reads then finish in an order
  the program does not control; the model takes input order (\<open>inspect_finish\<close>), builds
  the entries in input order as \<^verbatim>\<open>Promise.all\<close> does, and rejects with the first failure.
\<close>

primrec inspect_start :: "bool \<Rightarrow> nat \<Rightarrow> nat \<Rightarrow> string list \<Rightarrow> event list \<Rightarrow> event list" where
  "inspect_start v n index [] tr = tr"
| "inspect_start v n index (filePath # rest) tr =
     inspect_start v n (index + 1) rest
       (log v (''Processing file '' @ String_nat (index + 1) @ ''/'' @ String_nat n @ '': ''
               @ basename filePath) tr
        @ [CreateReadStream filePath, Stat filePath])"

definition file_entry :: "string \<Rightarrow> string \<Rightarrow> string \<Rightarrow> nat \<Rightarrow> string option \<Rightarrow> ReleaseFile" where
  "file_entry base filePath digest n arch =
     \<lparr> f_url = (if base \<noteq> [] then base @ ''/'' @ basename filePath else basename filePath),
       f_sha512 = digest,
       f_size = n,
       f_arch = (if truthy arch then arch else None) \<rparr>"

primrec inspect_finish :: "world \<Rightarrow> bool \<Rightarrow> string \<Rightarrow> string list \<Rightarrow> event list \<Rightarrow>
    ReleaseFile list outcome \<times> event list" where
  "inspect_finish w v base [] tr = (Resolved [], tr)"
| "inspect_finish w v base (filePath # rest) tr =
     (case getFileInfo w filePath of
        Inl e \<Rightarrow> (Rejected e, tr)
      | Inr (digest, n) \<Rightarrow>
          let tr1 = log v (''File size: '' @ String_nat n @ '' bytes'') tr;
              arch = extractArchFromFilename (basename filePath);
              tr2 = log v (''Detected architecture: '' @ default_to ''unknown'' arch) tr1
          in await (inspect_finish w v base rest tr2)
               (\<lambda>entries tr3. (Resolved (file_entry base filePath digest n arch # entries), tr3)))"

text \<open>
  Lines 172 to 197: the version, the manifest object and the compatibility fields.
  \<open>first\<close> is \<^verbatim>\<open>distributables[0]\<close>, which exists once the list has passed validation.
\<close>

definition manifest_of :: "world \<Rightarrow> CreateMetadataOptions \<Rightarrow> string \<Rightarrow> string option \<Rightarrow>
    ReleaseFile list \<Rightarrow> ReleaseManifest" where
  "manifest_of w opts first notes fileEntries =
     (let version =
            (case appVersion opts of
               Some v \<Rightarrow> v
             | None \<Rightarrow> default_to ''1.0.0'' (extractVersionFromFilename (basename first)));
          manifest =
            \<lparr> m_version = version,
              m_updaterVersion = default_to ''1.0.0'' (updaterVersion opts),
              m_schemaVersion = 1,
              m_releaseDate = toISOString_now w,
              m_files = fileEntries,
              m_releaseNotes = (if truthy notes then notes else None),
              m_releaseName = None,
              m_path = None,
              m_sha512 = None,
              m_size = None \<rparr>
      in if default_to False (autoUpdaterCompat opts) \<and> length fileEntries > 0 then
           manifest \<lparr> m_path := Some (basename first),
                      m_sha512 := Some (f_sha512 (hd fileEntries)),
                      m_size := Some (f_size (hd fileEntries)) \<rparr>
         else manifest)"

text \<open>The \<^verbatim>\<open>for\<close> loop over \<^verbatim>\<open>distributables.entries()\<close>.\<close>

primrec sign_each :: "world \<Rightarrow> bool \<Rightarrow> string \<Rightarrow> string option \<Rightarrow> nat \<Rightarrow> nat \<Rightarrow> string list \<Rightarrow>
    event list \<Rightarrow> unit outcome \<times> event list" where
  "sign_each w v keyPath pass n index [] tr = (Resolved (), tr)"
| "sign_each w v keyPath pass n index (filePath # rest) tr =
     await (signFile w filePath keyPath pass
              (log v (''Signing file '' @ String_nat (index + 1) @ ''/'' @ String_nat n @ '': ''
                      @ basename filePath) tr))
       (\<lambda>u tr'. sign_each w v keyPath pass n (index + 1) rest tr')"

definition platform_name :: "platform \<Rightarrow> string" where
  "platform_name p = (case p of Mac \<Rightarrow> ''mac'' | Win \<Rightarrow> ''win'' | Linux \<Rightarrow> ''linux'')"

text \<open>The path of the manifest file, \<^verbatim>\<open>path.join(outputDir, `latest-${platform}.yml`)\<close>.\<close>

definition manifestFile_of :: "CreateMetadataOptions \<Rightarrow> string" where
  "manifestFile_of opts =
     path_join (default_to ''.'' (outputDir opts))
       (''latest-'' @ platform_name (default_to Mac (platform opts)) @ ''.yml'')"

text \<open>Lines 136 to 197: from the release notes to the finished manifest object.\<close>

definition build :: "world \<Rightarrow> CreateMetadataOptions \<Rightarrow> event list \<Rightarrow>
    ReleaseManifest outcome \<times> event list" where
  "build w opts tr =
     (let v = default_to False (verbose opts);
          ds = distributables opts;
          tr1 = log v (''Processing '' @ String_nat (length ds) @ '' distributable files'') tr
      in await (case releaseNotes opts of
                  Some text_given \<Rightarrow> (Resolved (Some text_given), tr1)
                | None \<Rightarrow> readReleaseNotes w (releaseNotesPath opts) tr1)
           (\<lambda>notes tr2.
              let tr3 = log v (if truthy notes then ''Release notes loaded''
                               else ''No release notes provided'') tr2;
                  tr4 = log v ''Calculating file hashes and metadata...'' tr3;
                  tr5 = inspect_start v (length ds) 0 ds tr4
              in await (inspect_finish w v (default_to [] (baseUrl opts)) ds tr5)
                   (\<lambda>fileEntries tr6.
                      let manifest = manifest_of w opts (hd ds) notes fileEntries;
                          tr7 = log v (''Using version: '' @ m_version manifest) tr6;
                          tr8 = log v ''Creating manifest object...'' tr7
                      in (Resolved manifest,
                          if default_to False (autoUpdaterCompat opts) \<and> length fileEntries > 0
                          then log v ''Adding auto-updater compatibility fields'' tr8
                          else tr8))))"

text \<open>Lines 199 to 231: serialising, writing and signing.\<close>

definition persist_and_sign :: "world \<Rightarrow> CreateMetadataOptions \<Rightarrow> string \<Rightarrow> ReleaseManifest \<Rightarrow>
    event list \<Rightarrow> string outcome \<times> event list" where
  "persist_and_sign w opts keyPath manifest tr =
     (let v = default_to False (verbose opts);
          ds = distributables opts;
          dir = default_to ''.'' (outputDir opts);
          pass = password opts;
          tr1 = log v ''Converting manifest to YAML...'' tr @ [Stringify manifest];
          yamlContent = stringify w manifest;
          tr2 = (log v (''Ensuring output directory exists: '' @ dir) tr1) @ [Mkdir dir]
      in (case mkdir_error w dir of
            Some e \<Rightarrow> (Rejected e, tr2)
          | None \<Rightarrow>
             (let manifestFile = manifestFile_of opts;
                  tr3 = (log v (''Writing manifest to: '' @ manifestFile) tr2)
                        @ [WriteFile manifestFile yamlContent]
              in (case writeFile_error w manifestFile yamlContent of
                    Some e \<Rightarrow> (Rejected e, tr3)
                  | None \<Rightarrow>
                     (let tr4 = log v ''Signing manifest file...'' tr3;
                          tr5 = log v (if truthy pass then ''Password provided for key decryption''
                                       else ''No password provided, you may need to enter it manually if prompted'')
                                  tr4
                      in await (signFile w manifestFile keyPath pass tr5)
                           (\<lambda>u tr6.
                              await (sign_each w v keyPath pass (length ds) 0 ds
                                       (log v ''Signing distributable files...'' tr6))
                                (\<lambda>u' tr7.
                                   (Resolved manifestFile,
                                    log v ''Release metadata creation completed successfully!''
                                      tr7))))))))"

definition createReleaseMetadata :: "world \<Rightarrow> CreateMetadataOptions \<Rightarrow> event list \<Rightarrow>
    string outcome \<times> event list" where
  "createReleaseMetadata w opts tr =
     (let tr1 = log (default_to False (verbose opts)) ''Starting release metadata creation...'' tr
      in if length (distributables opts) = 0 then
           (Rejected ''No distributable files provided'', tr1)
         else if \<not> truthy (secretKeyPath opts) then
           (Rejected ''Secret key path is required'', tr1)
         else
           await (build w opts tr1)
             (\<lambda>manifest tr2. persist_and_sign w opts (the (secretKeyPath opts)) manifest tr2))"

section \<open>Observing a run\<close>

text \<open>
  The events a run adds to the trace it starts from, and the part of them the properties
  below speak about: \<open>steps\<close> keeps the writes to the file system, the life of the child
  processes and the error console, and drops the progress messages, the reads and what
  a child prints.
\<close>

definition added :: "event list \<Rightarrow> 'a outcome \<times> event list \<Rightarrow> event list" where
  "added tr r = drop (length tr) (snd r)"

definition is_step :: "event \<Rightarrow> bool" where
  "is_step e =
     (case e of
        Mkdir d \<Rightarrow> True
      | WriteFile p c \<Rightarrow> True
      | Spawn c a io \<Rightarrow> True
      | StdinWrite s \<Rightarrow> True
      | StdinEnd \<Rightarrow> True
      | Close c \<Rightarrow> True
      | ConsoleError m \<Rightarrow> True
      | _ \<Rightarrow> False)"

definition steps :: "event list \<Rightarrow> event list" where
  "steps tr = filter is_step tr"

text \<open>Access to the file system or to a process: every event but console output.\<close>

definition is_console :: "event \<Rightarrow> bool" where
  "is_console e = (case e of ConsoleLog m \<Rightarrow> True | ConsoleError m \<Rightarrow> True | _ \<Rightarrow> False)"

definition accesses :: "event list \<Rightarrow> event list" where
  "accesses tr = filter (\<lambda>e. \<not> is_console e) tr"

definition reads :: "event list \<Rightarrow> string list" where
  "reads tr = concat (map (\<lambda>e. case e of ReadFile p \<Rightarrow> [p] | _ \<Rightarrow> []) tr)"

definition spawns :: "event list \<Rightarrow> (string list \<times> stdio list) list" where
  "spawns tr = concat (map (\<lambda>e. case e of Spawn c a io \<Rightarrow> [(a, io)] | _ \<Rightarrow> []) tr)"

definition stdin_events :: "event list \<Rightarrow> event list" where
  "stdin_events tr =
     filter (\<lambda>e. case e of StdinWrite s \<Rightarrow> True | StdinEnd \<Rightarrow> True | _ \<Rightarrow> False) tr"

text \<open>
  One signing invocation as the two strategies start it: with a password the child's stdin
  is a pipe that receives the password and a newline and is closed; without one all three
  streams are inherited and nothing is written.
\<close>

definition invocation :: "string \<Rightarrow> string option \<Rightarrow> string \<Rightarrow> event list" where
  "invocation keyPath pass filePath =
     (if truthy pass then
        [Spawn ''minisign'' [''-S'', ''-s'', keyPath, ''-m'', filePath] [Pipe, Inherit, Inherit],
         StdinWrite (the pass @ [CHR 0x0A]),
         StdinEnd]
      else
        [Spawn ''minisign'' [''-S'', ''-s'', keyPath, ''-m'', filePath] [Inherit, Inherit, Inherit]])"

definition signed_ok :: "string \<Rightarrow> string option \<Rightarrow> string \<Rightarrow> event list" where
  "signed_ok keyPath pass filePath = invocation keyPath pass filePath @ [Close (Some 0)]"

definition sign_failed :: "string \<Rightarrow> string option \<Rightarrow> string \<Rightarrow> int option \<Rightarrow> event list" where
  "sign_failed keyPath pass filePath code =
     invocation keyPath pass filePath
     @ [Close code,
        ConsoleError (''Error signing file: '' @ basename filePath),
        ConsoleError (''minisign process exited with code '' @ String_code (truthy pass) code)]"

definition sign_error_text :: "string option \<Rightarrow> int option \<Rightarrow> string" where
  "sign_error_text pass code =
     ''Failed to sign file with minisign: minisign process exited with code ''
     @ String_code (truthy pass) code"

section \<open>Sample worlds and options\<close>

text \<open>
  A world where every file can be read and written; the \<open>k\<close>-th child process (counted
  from 1) prints \<open>msg\<close> and exits with \<open>code\<close>, every other one exits with 0.
\<close>

definition count_spawns :: "event list \<Rightarrow> nat" where
  "count_spawns tr = length (spawns tr)"

definition sample_world :: "nat \<Rightarrow> string \<Rightarrow> int option \<Rightarrow> world" where
  "sample_world k msg code =
     \<lparr> sha512_of = (\<lambda>p. Inr (''digest-of-'' @ p)),
       size_of = (\<lambda>p. Inr (length p)),
       content_of = (\<lambda>p. Inr (''notes from '' @ p)),
       mkdir_error = (\<lambda>d. None),
       writeFile_error = (\<lambda>p c. None),
       toISOString_now = ''2025-01-01T00:00:00.000Z'',
       stringify = (\<lambda>m. ''yaml''),
       child = (\<lambda>tr. if count_spawns tr = k then Some \<lparr> printed = msg, exit_code = code \<rparr>
                     else Some \<lparr> printed = [], exit_code = Some 0 \<rparr>) \<rparr>"

definition good_world :: world where
  "good_world = sample_world 0 [] (Some 0)"

definition sample_options :: "string list \<Rightarrow> CreateMetadataOptions" where
  "sample_options ds =
     \<lparr> distributables = ds,
       secretKeyPath = Some ''secret.key'',
       autoUpdaterCompat = None,
       releaseNotes = None,
       releaseNotesPath = None,
       outputDir = None,
       updaterVersion = None,
       appVersion = None,
       baseUrl = None,
       platform = None,
       password = None,
       verbose = None \<rparr>"

text \<open>
  The trace at the moment \<^verbatim>\<open>signFile\<close> starts to wait for the child it has spawned.
\<close>

definition waiting :: "event list \<Rightarrow> string \<Rightarrow> string \<Rightarrow> string option \<Rightarrow> event list" where
  "waiting tr filePath keyPath pass =
     tr @ [ConsoleLog (''Signing file: '' @ basename filePath),
           ConsoleLog (if truthy pass then ''Using provided password for key decryption''
                       else ''You may need to enter password in the terminal if prompted'')]
        @ invocation keyPath pass filePath"

text \<open>
  The steps of signing the files \<open>fs\<close> one after the other, as far as it gets: all of
  them signed; or the files before the \<open>j\<close>-th signed and the \<open>j\<close>-th failed with a code
  other than 0, which is reported and ends the sequence; or the \<open>j\<close>-th never exits.
\<close>

definition sign_shape :: "string \<Rightarrow> string option \<Rightarrow> string list \<Rightarrow> 'a outcome \<Rightarrow> event list \<Rightarrow> bool" where
  "sign_shape keyPath pass fs res evs =
     (case res of
        Resolved u \<Rightarrow> evs = concat (map (signed_ok keyPath pass) fs)
      | Rejected message \<Rightarrow>
          (\<exists>j c. j < length fs \<and> c \<noteq> Some 0
             \<and> evs = concat (map (signed_ok keyPath pass) (take j fs))
                     @ sign_failed keyPath pass (fs ! j) c
             \<and> message = sign_error_text pass c)
      | Pending \<Rightarrow>
          (\<exists>j. j < length fs
             \<and> evs = concat (map (signed_ok keyPath pass) (take j fs))
                     @ invocation keyPath pass (fs ! j)))"

text \<open>The events of the stages before the manifest is serialised: messages and reads.\<close>

definition is_preparation :: "event \<Rightarrow> bool" where
  "is_preparation e =
     (case e of
        ConsoleLog m \<Rightarrow> True
      | ReadFile p \<Rightarrow> True
      | CreateReadStream p \<Rightarrow> True
      | Stat p \<Rightarrow> True
      | _ \<Rightarrow> False)"

text \<open>A computation that extends the trace by events of one kind only.\<close>

definition only :: "(event \<Rightarrow> bool) \<Rightarrow> event list \<Rightarrow> 'a outcome \<times> event list \<Rightarrow> bool" where
  "only P tr r = (snd r = tr @ added tr r \<and> list_all P (added tr r))"

text \<open>The events of a signing invocation, with its messages.\<close>

definition is_signing :: "event \<Rightarrow> bool" where
  "is_signing e =
     (case e of
        ConsoleLog m \<Rightarrow> True
      | ConsoleError m \<Rightarrow> True
      | Spawn c a io \<Rightarrow> True
      | StdinWrite s \<Rightarrow> True
      | StdinEnd \<Rightarrow> True
      | ChildOutput s \<Rightarrow> True
      | Close c \<Rightarrow> True
      | _ \<Rightarrow> False)"

text \<open>The events of the stages from serialising on, for the manifest object \<open>m\<close>.\<close>

definition is_persisting :: "world \<Rightarrow> CreateMetadataOptions \<Rightarrow> ReleaseManifest \<Rightarrow> event \<Rightarrow> bool" where
  "is_persisting w opts m e =
     (is_signing e \<or> e = Stringify m \<or> e = Mkdir (default_to ''.'' (outputDir opts))
      \<or> e = WriteFile (manifestFile_of opts) (stringify w m))"

text \<open>The events of inspecting the distributables: messages and the two reads per file.\<close>

definition is_inspection :: "event \<Rightarrow> bool" where
  "is_inspection e =
     (case e of
        ConsoleLog m \<Rightarrow> True
      | CreateReadStream p \<Rightarrow> True
      | Stat p \<Rightarrow> True
      | _ \<Rightarrow> False)"

text \<open>
  The release notes as the specification resolves them: the explicit string when one is
  given, else the content of the notes file when a path is given, else none.
\<close>

definition resolved_notes :: "world \<Rightarrow> CreateMetadataOptions \<Rightarrow> string option" where
  "resolved_notes w opts =
     (case releaseNotes opts of
        Some given \<Rightarrow> Some given
      | None \<Rightarrow>
          (if truthy (releaseNotesPath opts) then
             (case content_of w (the (releaseNotesPath opts)) of
                Inr content \<Rightarrow> Some content
              | Inl e \<Rightarrow> None)
           else None))"

text \<open>The entry of the files list that belongs to the distributable \<open>filePath\<close>.\<close>

definition entry_for :: "world \<Rightarrow> CreateMetadataOptions \<Rightarrow> string \<Rightarrow> ReleaseFile \<Rightarrow> bool" where
  "entry_for w opts filePath e =
     (\<exists>digest n. sha512_of w filePath = Inr digest \<and> size_of w filePath = Inr n
        \<and> e = file_entry (default_to [] (baseUrl opts)) filePath digest n
                (extractArchFromFilename (basename filePath)))"

text \<open>
  A release of two distributables with the compatibility flag set, once with a base URL
  and once without, and the manifest objects the runs construct for them.
\<close>

definition release_options :: "string option \<Rightarrow> CreateMetadataOptions" where
  "release_options base =
     (sample_options [''dist/App-1.0.0.dmg'', ''dist/App-1.0.0.zip''])
       \<lparr> autoUpdaterCompat := Some True, baseUrl := base \<rparr>"

definition release_manifest :: "string \<Rightarrow> ReleaseManifest" where
  "release_manifest prefix =
     \<lparr> m_version = ''1.0.0'',
       m_updaterVersion = ''1.0.0'',
       m_schemaVersion = 1,
       m_releaseDate = ''2025-01-01T00:00:00.000Z'',
       m_files =
         [\<lparr> f_url = prefix @ ''App-1.0.0.dmg'', f_sha512 = ''digest-of-dist/App-1.0.0.dmg'',
             f_size = 18, f_arch = None \<rparr>,
          \<lparr> f_url = prefix @ ''App-1.0.0.zip'', f_sha512 = ''digest-of-dist/App-1.0.0.zip'',
             f_size = 18, f_arch = None \<rparr>],
       m_releaseNotes = None,
       m_releaseName = None,
       m_path = Some ''App-1.0.0.dmg'',
       m_sha512 = Some ''digest-of-dist/App-1.0.0.dmg'',
       m_size = Some 18 \<rparr>"

text \<open>
  The \<^verbatim>\<open>stdio\<close> setting of the two credential strategies: explicit (stdin piped) and
  interactive (everything inherited).
\<close>

definition strategy :: "string option \<Rightarrow> stdio list" where
  "strategy pass = (if truthy pass then [Pipe, Inherit, Inherit] else [Inherit, Inherit, Inherit])"

section \<open>What the specification says about the two heuristics\<close>

text \<open>
  What an expression matches: \<open>matches ci e u r\<close> says that \<open>e\<close> matches the text \<open>u\<close> when
  \<open>r\<close> is the rest of the input after it (the rest matters to \<^verbatim>\<open>$\<close> only).
\<close>

primrec matches :: "bool \<Rightarrow> re \<Rightarrow> string \<Rightarrow> string \<Rightarrow> bool" where
  "matches ci (Lit c) u r = (\<exists>x. u = [x] \<and> eq_char ci c x)"
| "matches ci (PlusCls p) u r = (u \<noteq> [] \<and> list_all p u)"
| "matches ci (Seq a b) u r =
     (\<exists>u1 u2. u = u1 @ u2 \<and> matches ci a u1 (u2 @ r) \<and> matches ci b u2 r)"
| "matches ci (Alt a b) u r = (matches ci a u r \<or> matches ci b u r)"
| "matches ci (Opt a) u r = (matches ci a u r \<or> u = [])"
| "matches ci Eol u r = (u = [] \<and> r = [])"
| "matches ci Eps u r = (u = [])"

text \<open>
  The token groups of the architecture heuristic, in the order of the specification;
  a token occurs in a name when, ignoring case, it is a contiguous part of it.
\<close>

definition arch_groups :: "(string list \<times> string) list" where
  "arch_groups =
     [([''arm64'', ''aarch64''], ''arm64''),
      ([''x64'', ''x86_64'', ''amd64''], ''x64''),
      ([''x86'', ''ia32'', ''i386''], ''ia32''),
      ([''universal''], ''universal'')]"

definition occurs_ci :: "string \<Rightarrow> string \<Rightarrow> bool" where
  "occurs_ci token name =
     list_ex (\<lambda>i. map to_lower (take (length token) (drop i name)) = map to_lower token)
       [0..<Suc (length name)]"

definition arch_spec :: "string \<Rightarrow> string option" where
  "arch_spec name =
     map_option snd (find (\<lambda>g. list_ex (\<lambda>token. occurs_ci token name) (fst g)) arch_groups)"

text \<open>
  The version pattern of the specification: a core \<^verbatim>\<open><major>.<minor>.<patch>\<close> of decimal
  digits, optionally followed by a hyphen and a prerelease of letters, digits and dots.
\<close>

definition digits :: "string \<Rightarrow> bool" where
  "digits u = (u \<noteq> [] \<and> list_all is_digit u)"

definition is_core :: "string \<Rightarrow> bool" where
  "is_core v = (\<exists>a b c. v = a @ ''.'' @ b @ ''.'' @ c \<and> digits a \<and> digits b \<and> digits c)"

definition is_prerelease :: "string \<Rightarrow> bool" where
  "is_prerelease q = (q \<noteq> [] \<and> list_all is_prerelease_char q)"

definition is_version :: "string \<Rightarrow> bool" where
  "is_version v = (is_core v \<or> (\<exists>c q. v = c @ ''-'' @ q \<and> is_core c \<and> is_prerelease q))"

text \<open>A file extension: a dot followed by at least one character, none of them a dot.\<close>

definition is_extension :: "string \<Rightarrow> bool" where
  "is_extension e = (\<exists>x. e = ''.'' @ x \<and> x \<noteq> [] \<and> CHR ''.'' \<notin> set x)"

section \<open>Basic facts about traces\<close>

lemma log_append: "log v m tr = tr @ log v m []"
  by (simp add: log_def)

lemma added_append [simp]: "added tr (r, tr @ evs) = evs"
  by (simp add: added_def)

lemma added_same [simp]: "added tr (r, tr) = []"
  by (simp add: added_def)

lemma added_log [simp]: "added tr (r, log v m tr) = log v m []"
  by (simp add: added_def log_def)

lemma accesses_simps [simp]:
  "accesses [] = []"
  "accesses (xs @ ys) = accesses xs @ accesses ys"
  "accesses (log v m tr) = accesses tr"
  by (simp_all add: accesses_def log_def is_console_def)

lemma steps_simps [simp]:
  "steps [] = []"
  "steps (xs @ ys) = steps xs @ steps ys"
  "steps (log v m tr) = steps tr"
  "steps (ConsoleLog m # xs) = steps xs"
  "steps (ChildOutput m # xs) = steps xs"
  "steps (Spawn c a io # xs) = Spawn c a io # steps xs"
  "steps (StdinWrite s # xs) = StdinWrite s # steps xs"
  "steps (StdinEnd # xs) = StdinEnd # steps xs"
  "steps (Close code # xs) = Close code # steps xs"
  "steps (ConsoleError m # xs) = ConsoleError m # steps xs"
  "steps (Mkdir d # xs) = Mkdir d # steps xs"
  "steps (WriteFile p y # xs) = WriteFile p y # steps xs"
  "steps (Stringify mf # xs) = steps xs"
  "steps (ReadFile p # xs) = steps xs"
  "steps (CreateReadStream p # xs) = steps xs"
  "steps (Stat p # xs) = steps xs"
  by (simp_all add: steps_def log_def is_step_def)

section \<open>Validation comes before any access\<close>

text \<open>
  C4. When the list of distributables is empty, or the secret-key path is absent or the
  empty string, \<open>createReleaseMetadata\<close> rejects with a validation error (the first of
  the two checks that fails names it), and the run has touched neither the file system
  nor a process: apart from console output it has added no event to the trace, so no
  file was read or hashed, no directory created and no file written.
\<close>

theorem validation_before_io:
  assumes "distributables opts = [] \<or> secretKeyPath opts = None \<or> secretKeyPath opts = Some []"
  shows "fst (createReleaseMetadata w opts tr) =
           Rejected (if distributables opts = [] then ''No distributable files provided''
                     else ''Secret key path is required'')
         \<and> accesses (added tr (createReleaseMetadata w opts tr)) = []"
  using assms by (auto simp: createReleaseMetadata_def Let_def truthy_def)

theorem validation_before_io_witness:
  "fst (createReleaseMetadata good_world (sample_options []) []) =
     Rejected ''No distributable files provided''
   \<and> accesses (added [] (createReleaseMetadata good_world (sample_options []) [])) = []"
  using validation_before_io [of "sample_options []" good_world "[]"]
  by (simp add: sample_options_def)

section \<open>Signing one file\<close>

lemma signFile_eq:
  "signFile w f k p tr =
     (case child w (waiting tr f k p) of
        None \<Rightarrow> (Pending, waiting tr f k p)
      | Some c \<Rightarrow>
          if exit_code c = Some 0 then
            (Resolved (),
             waiting tr f k p @ [ChildOutput (printed c), Close (Some 0),
               ConsoleLog (''Successfully signed: '' @ basename f)])
          else
            (Rejected (sign_error_text p (exit_code c)),
             waiting tr f k p @ [ChildOutput (printed c), Close (exit_code c),
               ConsoleError (''Error signing file: '' @ basename f),
               ConsoleError (''minisign process exited with code ''
                             @ String_code (truthy p) (exit_code c))]))"
  by (simp add: signFile_def signFile_try_def on_close_def waiting_def invocation_def
      minisign_args_def sign_error_text_def Let_def split: option.splits)

lemma steps_invocation [simp]: "steps (invocation k p f) = invocation k p f"
  by (simp add: invocation_def)

lemma waiting_append: "waiting tr f k p = tr @ waiting [] f k p"
  by (simp add: waiting_def)

lemma steps_waiting [simp]: "steps (waiting [] f k p) = invocation k p f"
  by (simp add: waiting_def)

lemma snd_signFile: "snd (signFile w f k p tr) = tr @ added tr (signFile w f k p tr)"
  by (simp add: signFile_eq added_def waiting_def split: option.splits)

lemma signFile_shape:
  "sign_shape k p [f] (fst (signFile w f k p tr)) (steps (added tr (signFile w f k p tr)))"
proof (cases "child w (waiting tr f k p)")
  case None
  then show ?thesis
    by (simp add: signFile_eq sign_shape_def added_def waiting_def)
next
  case (Some c)
  show ?thesis
  proof (cases "exit_code c = Some 0")
    case True
    with Some show ?thesis
      by (simp add: signFile_eq sign_shape_def added_def waiting_def signed_ok_def)
  next
    case False
    with Some show ?thesis
      by (simp add: signFile_eq sign_shape_def added_def waiting_def sign_failed_def)
  qed
qed

section \<open>Sequencing\<close>

lemma await_eq:
  "await p k = (case fst p of Resolved x \<Rightarrow> k x (snd p) | Rejected e \<Rightarrow> (Rejected e, snd p)
                | Pending \<Rightarrow> (Pending, snd p))"
  by (cases p) (simp add: await_def split: outcome.splits)

lemma added_eqI: "snd r = tr @ evs \<Longrightarrow> added tr r = evs"
  by (simp add: added_def)

lemma snd_await:
  assumes "snd p = tr @ added tr p"
    and "\<And>x. fst p = Resolved x \<Longrightarrow> snd (k x (snd p)) = snd p @ added (snd p) (k x (snd p))"
  shows "snd (await p k) = tr @ added tr (await p k)
         \<and> added tr (await p k) =
             (case fst p of Resolved x \<Rightarrow> added tr p @ added (snd p) (k x (snd p))
              | Rejected e \<Rightarrow> added tr p | Pending \<Rightarrow> added tr p)"
proof (cases "fst p")
  case (Resolved x)
  have "snd (k x (snd p)) = snd p @ added (snd p) (k x (snd p))"
    by (rule assms(2)[OF Resolved])
  then have eq: "snd (k x (snd p)) = tr @ (added tr p @ added (snd p) (k x (snd p)))"
    using assms(1) by (metis append.assoc)
  have aw: "await p k = k x (snd p)" using Resolved by (simp add: await_eq)
  have "added tr (await p k) = added tr p @ added (snd p) (k x (snd p))"
    unfolding aw by (rule added_eqI[OF eq])
  moreover have "snd (await p k) = tr @ (added tr p @ added (snd p) (k x (snd p)))"
    unfolding aw by (rule eq)
  ultimately show ?thesis using Resolved by simp
next
  case (Rejected e)
  then have aw: "await p k = (Rejected e, snd p)" by (simp add: await_eq)
  have "added tr (await p k) = added tr p" unfolding aw by (simp add: added_def)
  moreover have "snd (await p k) = tr @ added tr p" unfolding aw using assms(1) by simp
  ultimately show ?thesis using Rejected by simp
next
  case Pending
  then have aw: "await p k = (Pending, snd p)" by (simp add: await_eq)
  have "added tr (await p k) = added tr p" unfolding aw by (simp add: added_def)
  moreover have "snd (await p k) = tr @ added tr p" unfolding aw using assms(1) by simp
  ultimately show ?thesis using Pending by simp
qed

lemma sign_shape_Cons:
  assumes "sign_shape k p [f] r1 s1"
    and "\<And>u. r1 = Resolved u \<Longrightarrow> sign_shape k p fs r2 s2"
  shows "sign_shape k p (f # fs)
           (case r1 of Resolved u \<Rightarrow> r2 | Rejected e \<Rightarrow> Rejected e | Pending \<Rightarrow> Pending)
           (case r1 of Resolved u \<Rightarrow> s1 @ s2 | _ \<Rightarrow> s1)"
proof (cases r1)
  case (Resolved u)
  from assms(2)[OF this] have rest: "sign_shape k p fs r2 s2" .
  from assms(1) Resolved have s1: "s1 = signed_ok k p f" by (simp add: sign_shape_def)
  show ?thesis
  proof (cases r2)
    case (Resolved u')
    with rest s1 \<open>r1 = Resolved u\<close> show ?thesis by (simp add: sign_shape_def)
  next
    case (Rejected msg)
    with rest obtain j c where "j < length fs" "c \<noteq> Some 0"
      "s2 = concat (map (signed_ok k p) (take j fs)) @ sign_failed k p (fs ! j) c"
      "msg = sign_error_text p c"
      by (auto simp: sign_shape_def)
    then have "Suc j < length (f # fs) \<and> c \<noteq> Some 0
        \<and> s1 @ s2 = concat (map (signed_ok k p) (take (Suc j) (f # fs)))
                     @ sign_failed k p ((f # fs) ! Suc j) c
        \<and> msg = sign_error_text p c"
      using s1 by simp
    then show ?thesis using Rejected \<open>r1 = Resolved u\<close>
      unfolding sign_shape_def by (simp only: outcome.case) blast
  next
    case Pending
    with rest obtain j where "j < length fs"
      "s2 = concat (map (signed_ok k p) (take j fs)) @ invocation k p (fs ! j)"
      by (auto simp: sign_shape_def)
    then have "Suc j < length (f # fs)
        \<and> s1 @ s2 = concat (map (signed_ok k p) (take (Suc j) (f # fs)))
                     @ invocation k p ((f # fs) ! Suc j)"
      using s1 by simp
    then show ?thesis using Pending \<open>r1 = Resolved u\<close>
      unfolding sign_shape_def by (simp only: outcome.case) blast
  qed
next
  case (Rejected msg)
  with assms(1) obtain c where "c \<noteq> Some 0" "s1 = sign_failed k p f c" "msg = sign_error_text p c"
    by (auto simp: sign_shape_def)
  then have "0 < length (f # fs) \<and> c \<noteq> Some 0
      \<and> s1 = concat (map (signed_ok k p) (take 0 (f # fs))) @ sign_failed k p ((f # fs) ! 0) c
      \<and> msg = sign_error_text p c" by simp
  then show ?thesis using Rejected
    unfolding sign_shape_def by (simp only: outcome.case) blast
next
  case Pending
  with assms(1) have "s1 = invocation k p f" by (auto simp: sign_shape_def)
  then have "0 < length (f # fs)
      \<and> s1 = concat (map (signed_ok k p) (take 0 (f # fs))) @ invocation k p ((f # fs) ! 0)"
    by simp
  then show ?thesis using Pending
    unfolding sign_shape_def by (simp only: outcome.case) blast
qed

section \<open>The signing loop\<close>

lemma snd_signFile_log:
  "snd (signFile w f k p (log v m tr)) = tr @ added tr (signFile w f k p (log v m tr))"
proof -
  have "snd (signFile w f k p (log v m tr))
        = tr @ (log v m [] @ added (log v m tr) (signFile w f k p (log v m tr)))"
    using snd_signFile[of w f k p "log v m tr"] log_append[of v m tr] by (metis append.assoc)
  from added_eqI[OF this] this show ?thesis by simp
qed

lemma steps_signFile_log:
  "steps (added tr (signFile w f k p (log v m tr)))
   = steps (added (log v m tr) (signFile w f k p (log v m tr)))"
proof -
  have "snd (signFile w f k p (log v m tr))
        = tr @ (log v m [] @ added (log v m tr) (signFile w f k p (log v m tr)))"
    using snd_signFile[of w f k p "log v m tr"] log_append[of v m tr] by (metis append.assoc)
  from added_eqI[OF this] show ?thesis by simp
qed

lemma signFile_log_shape:
  "sign_shape k p [f] (fst (signFile w f k p (log v m tr)))
     (steps (added tr (signFile w f k p (log v m tr))))"
  unfolding steps_signFile_log by (rule signFile_shape)

lemma fst_await:
  "fst (await p k) = (case fst p of Resolved x \<Rightarrow> fst (k x (snd p)) | Rejected e \<Rightarrow> Rejected e
                      | Pending \<Rightarrow> Pending)"
  by (simp add: await_eq split: outcome.splits)

lemma sign_each_props:
  "snd (sign_each w v k p n i fs tr) = tr @ added tr (sign_each w v k p n i fs tr)
   \<and> sign_shape k p fs (fst (sign_each w v k p n i fs tr))
        (steps (added tr (sign_each w v k p n i fs tr)))"
proof (induction fs arbitrary: i tr)
  case Nil
  show ?case by (simp add: sign_shape_def added_def)
next
  case (Cons f fs)
  let ?m = "''Signing file '' @ String_nat (i + 1) @ ''/'' @ String_nat n @ '': '' @ basename f"
  let ?P = "signFile w f k p (log v ?m tr)"
  let ?K = "\<lambda>(u::unit) tr'. sign_each w v k p n (i + 1) fs tr'"
  have eq: "sign_each w v k p n i (f # fs) tr = await ?P ?K" by simp
  have p1: "snd ?P = tr @ added tr ?P" by (rule snd_signFile_log)
  have k1: "\<And>x. snd (?K x (snd ?P)) = snd ?P @ added (snd ?P) (?K x (snd ?P))"
    using Cons.IH by blast
  note aw = snd_await[of ?P tr ?K, OF p1 k1]
  have shape1: "sign_shape k p [f] (fst ?P) (steps (added tr ?P))"
    by (rule signFile_log_shape)
  have shape2: "sign_shape k p fs (fst (?K () (snd ?P))) (steps (added (snd ?P) (?K () (snd ?P))))"
    using Cons.IH by blast
  have "sign_shape k p (f # fs)
          (case fst ?P of Resolved u \<Rightarrow> fst (?K () (snd ?P)) | Rejected e \<Rightarrow> Rejected e
           | Pending \<Rightarrow> Pending)
          (case fst ?P of Resolved u \<Rightarrow> steps (added tr ?P) @ steps (added (snd ?P) (?K () (snd ?P)))
           | _ \<Rightarrow> steps (added tr ?P))"
    by (rule sign_shape_Cons[OF shape1 shape2])
  moreover have "fst (await ?P ?K)
      = (case fst ?P of Resolved u \<Rightarrow> fst (?K () (snd ?P)) | Rejected e \<Rightarrow> Rejected e
           | Pending \<Rightarrow> Pending)"
    by (simp add: fst_await split: outcome.splits)
  moreover have "steps (added tr (await ?P ?K))
      = (case fst ?P of Resolved u \<Rightarrow> steps (added tr ?P) @ steps (added (snd ?P) (?K () (snd ?P)))
           | _ \<Rightarrow> steps (added tr ?P))"
    using aw by (simp split: outcome.splits)
  ultimately have "sign_shape k p (f # fs) (fst (await ?P ?K)) (steps (added tr (await ?P ?K)))"
    by simp
  with aw show ?case unfolding eq by blast
qed

lemma after_prefix:
  assumes "snd r = tr' @ added tr' r" and "tr' = tr @ pre"
  shows "snd r = tr @ added tr r \<and> added tr r = pre @ added tr' r"
proof -
  have "snd r = tr @ (pre @ added tr' r)" using assms by (metis append.assoc)
  from added_eqI[OF this] this show ?thesis by simp
qed

lemma sign_shape_map:
  "sign_shape k p fs (case r of Resolved u \<Rightarrow> Resolved x | Rejected e \<Rightarrow> Rejected e
                      | Pending \<Rightarrow> Pending) s
   = sign_shape k p fs r s"
  by (cases r) (simp_all add: sign_shape_def)

lemma signing_part:
  fixes mf :: string
  defines "K \<equiv> (\<lambda>w v k p n ds m1 m2 mf (u::unit) tr6.
            await (sign_each w v k p n 0 ds (log v m1 tr6))
              (\<lambda>(u'::unit) tr7. (Resolved mf, log v m2 tr7)))"
  shows "snd (await (signFile w mf k p tr) (K w v k p n ds m1 m2 mf))
           = tr @ added tr (await (signFile w mf k p tr) (K w v k p n ds m1 m2 mf))
         \<and> sign_shape k p (mf # ds)
             (fst (await (signFile w mf k p tr) (K w v k p n ds m1 m2 mf)))
             (steps (added tr (await (signFile w mf k p tr) (K w v k p n ds m1 m2 mf))))
         \<and> (\<forall>r. fst (await (signFile w mf k p tr) (K w v k p n ds m1 m2 mf)) = Resolved r
                \<longrightarrow> r = mf)"
proof -
  let ?K = "K w v k p n ds m1 m2 mf"
  have inner: "snd (?K u tr6) = tr6 @ added tr6 (?K u tr6)
      \<and> sign_shape k p ds (fst (?K u tr6)) (steps (added tr6 (?K u tr6)))
      \<and> (\<forall>r. fst (?K u tr6) = Resolved r \<longrightarrow> r = mf)" for u tr6
  proof -
    let ?E = "sign_each w v k p n 0 ds (log v m1 tr6)"
    let ?F = "\<lambda>(u'::unit) tr7. (Resolved mf, log v m2 tr7)"
    have e0: "snd ?E = log v m1 tr6 @ added (log v m1 tr6) ?E"
      and e1: "sign_shape k p ds (fst ?E) (steps (added (log v m1 tr6) ?E))"
      using sign_each_props[of w v k p n 0 ds "log v m1 tr6"] by blast+
    from after_prefix[OF e0 log_append]
    have e2: "snd ?E = tr6 @ added tr6 ?E"
      and e3: "added tr6 ?E = log v m1 [] @ added (log v m1 tr6) ?E" by blast+
    have f1: "\<And>x. snd (?F x (snd ?E)) = snd ?E @ added (snd ?E) (?F x (snd ?E))"
      by (simp add: log_def)
    have f2: "\<And>x. steps (added (snd ?E) (?F x (snd ?E))) = []"
      by simp
    note aw = snd_await[of ?E tr6 ?F, OF e2 f1]
    have st: "steps (added tr6 (await ?E ?F)) = steps (added (log v m1 tr6) ?E)"
      using aw e3 by (simp split: outcome.splits)
    have fs: "fst (await ?E ?F) = (case fst ?E of Resolved u \<Rightarrow> Resolved mf
                | Rejected e \<Rightarrow> Rejected e | Pending \<Rightarrow> Pending)"
      by (simp add: fst_await split: outcome.splits)
    have "sign_shape k p ds (fst (await ?E ?F)) (steps (added tr6 (await ?E ?F)))"
      unfolding st fs sign_shape_map by (rule e1)
    moreover have "\<forall>r. fst (await ?E ?F) = Resolved r \<longrightarrow> r = mf"
      unfolding fs by (simp split: outcome.splits)
    ultimately show ?thesis using aw unfolding K_def by blast
  qed
  let ?P = "signFile w mf k p tr"
  have p1: "snd ?P = tr @ added tr ?P" by (rule snd_signFile)
  have k1: "\<And>x. snd (?K x (snd ?P)) = snd ?P @ added (snd ?P) (?K x (snd ?P))"
    using inner by blast
  note aw = snd_await[of ?P tr ?K, OF p1 k1]
  have shape1: "sign_shape k p [mf] (fst ?P) (steps (added tr ?P))" by (rule signFile_shape)
  have shape2: "sign_shape k p ds (fst (?K () (snd ?P))) (steps (added (snd ?P) (?K () (snd ?P))))"
    using inner by blast
  have "sign_shape k p (mf # ds)
          (case fst ?P of Resolved u \<Rightarrow> fst (?K () (snd ?P)) | Rejected e \<Rightarrow> Rejected e
           | Pending \<Rightarrow> Pending)
          (case fst ?P of Resolved u \<Rightarrow> steps (added tr ?P) @ steps (added (snd ?P) (?K () (snd ?P)))
           | _ \<Rightarrow> steps (added tr ?P))"
    by (rule sign_shape_Cons[OF shape1 shape2])
  moreover have fs: "fst (await ?P ?K)
      = (case fst ?P of Resolved u \<Rightarrow> fst (?K () (snd ?P)) | Rejected e \<Rightarrow> Rejected e
           | Pending \<Rightarrow> Pending)"
    by (simp add: fst_await split: outcome.splits)
  moreover have "steps (added tr (await ?P ?K))
      = (case fst ?P of Resolved u \<Rightarrow> steps (added tr ?P) @ steps (added (snd ?P) (?K () (snd ?P)))
           | _ \<Rightarrow> steps (added tr ?P))"
    using aw by (simp split: outcome.splits)
  ultimately have "sign_shape k p (mf # ds) (fst (await ?P ?K)) (steps (added tr (await ?P ?K)))"
    by simp
  moreover have "\<forall>r. fst (await ?P ?K) = Resolved r \<longrightarrow> r = mf"
    unfolding fs using inner by (auto split: outcome.splits)
  ultimately show ?thesis using aw by blast
qed

section \<open>Computations that add events of one kind\<close>

lemma onlyI: "snd r = tr @ evs \<Longrightarrow> list_all P evs \<Longrightarrow> only P tr r"
  unfolding only_def using added_eqI by fastforce

lemma only_snd: "only P tr r \<Longrightarrow> snd r = tr @ added tr r"
  by (simp add: only_def)

lemma only_all: "only P tr r \<Longrightarrow> list_all P (added tr r)"
  by (simp add: only_def)

lemma only_mono: "only P tr r \<Longrightarrow> (\<And>e. P e \<Longrightarrow> Q e) \<Longrightarrow> only Q tr r"
  unfolding only_def by (auto simp: list_all_iff)

lemma only_await:
  assumes "only P tr p"
    and "\<And>x. fst p = Resolved x \<Longrightarrow> only P (snd p) (k x (snd p))"
  shows "only P tr (await p k)"
proof -
  have p1: "snd p = tr @ added tr p" using assms(1) by (rule only_snd)
  have k1: "\<And>x. fst p = Resolved x \<Longrightarrow> snd (k x (snd p)) = snd p @ added (snd p) (k x (snd p))"
    using assms(2) by (rule only_snd)
  note aw = snd_await[of p tr k, OF p1 k1]
  have "list_all P (added tr (await p k))"
  proof (cases "fst p")
    case (Resolved x)
    then show ?thesis using aw only_all[OF assms(1)] only_all[OF assms(2)[OF Resolved]] by simp
  next
    case (Rejected e)
    then show ?thesis using aw only_all[OF assms(1)] by simp
  next
    case Pending
    then show ?thesis using aw only_all[OF assms(1)] by simp
  qed
  with aw show ?thesis by (simp add: only_def)
qed

lemma only_after:
  assumes "only P (tr @ pre) r" and "list_all P pre"
  shows "only P tr r"
proof -
  from after_prefix[OF only_snd[OF assms(1)] refl]
  have "snd r = tr @ added tr r" and "added tr r = pre @ added (tr @ pre) r" by blast+
  then show ?thesis using only_all[OF assms(1)] assms(2) by (simp add: only_def)
qed

lemma only_after_log:
  assumes "only P (log v m tr) r" and "\<And>s. P (ConsoleLog s)"
  shows "only P tr r"
proof -
  have "only P (tr @ log v m []) r" using assms(1) log_append[of v m tr] by simp
  moreover have "list_all P (log v m [])" using assms(2) by (simp add: log_def)
  ultimately show ?thesis by (rule only_after)
qed

lemma only_signFile: "only is_signing tr (signFile w f k p tr)"
proof (rule onlyI)
  show "snd (signFile w f k p tr) = tr @ added tr (signFile w f k p tr)" by (rule snd_signFile)
  show "list_all is_signing (added tr (signFile w f k p tr))"
    by (simp add: signFile_eq waiting_def invocation_def is_signing_def added_def
        split: option.splits)
qed

lemma only_sign_each: "only is_signing tr (sign_each w v k p n i fs tr)"
proof (induction fs arbitrary: i tr)
  case Nil
  show ?case by (simp add: only_def)
next
  case (Cons f fs)
  have "only is_signing tr (signFile w f k p (log v
          (''Signing file '' @ String_nat (i + 1) @ ''/'' @ String_nat n @ '': '' @ basename f) tr))"
    by (rule only_after_log[OF only_signFile]) (simp add: is_signing_def)
  then show ?case using Cons.IH by (simp add: only_await)
qed

section \<open>Serialising, writing and signing\<close>

lemma only_persist_and_sign:
  "only (is_persisting w opts m) tr (persist_and_sign w opts k m tr)"
  (is "only ?Q tr _")
proof -
  let ?v = "default_to False (verbose opts)"
  let ?dir = "default_to ''.'' (outputDir opts)"
  let ?mf = "manifestFile_of opts"
  have Qlog: "\<And>s. ?Q (ConsoleLog s)" by (simp add: is_signing_def is_persisting_def)
  have sf: "only ?Q tr' (signFile w f' k' p' tr')" for tr' f' k' p'
    by (rule only_mono[where Q="?Q", OF only_signFile]) (simp add: is_persisting_def)
  have se: "only ?Q tr' (sign_each w v' k' p' n' i' fs' tr')" for tr' v' k' p' n' i' fs'
    by (rule only_mono[where Q="?Q", OF only_sign_each]) (simp add: is_persisting_def)
  have sign: "only ?Q tr5
      (await (signFile w ?mf k (password opts) tr5)
         (\<lambda>u tr6. await (sign_each w ?v k (password opts) (length (distributables opts)) 0
                            (distributables opts) (log ?v m1 tr6))
                     (\<lambda>u' tr7. (Resolved ?mf, log ?v m2 tr7))))" for tr5 m1 m2
  proof (rule only_await)
    show "only ?Q tr5 (signFile w ?mf k (password opts) tr5)"
      by (rule sf)
  next
    fix x
    show "only ?Q (snd (signFile w ?mf k (password opts) tr5))
       (await (sign_each w ?v k (password opts) (length (distributables opts)) 0
                 (distributables opts) (log ?v m1 (snd (signFile w ?mf k (password opts) tr5))))
          (\<lambda>u' tr7. (Resolved ?mf, log ?v m2 tr7)))"
    proof (rule only_await)
      show "only ?Q (snd (signFile w ?mf k (password opts) tr5))
         (sign_each w ?v k (password opts) (length (distributables opts)) 0
            (distributables opts) (log ?v m1 (snd (signFile w ?mf k (password opts) tr5))))"
        by (rule only_after_log[where P="?Q", OF se Qlog])
    next
      fix y
      show "only ?Q (snd (sign_each w ?v k (password opts) (length (distributables opts)) 0
            (distributables opts) (log ?v m1 (snd (signFile w ?mf k (password opts) tr5)))))
          (Resolved ?mf, log ?v m2 (snd (sign_each w ?v k (password opts)
            (length (distributables opts)) 0
            (distributables opts) (log ?v m1 (snd (signFile w ?mf k (password opts) tr5))))))"
        by (rule onlyI[of _ _ "log ?v m2 []"]) (simp_all add: log_def is_signing_def is_persisting_def)
    qed
  qed
  show ?thesis
  proof (cases "mkdir_error w ?dir")
    case (Some e)
    show ?thesis
      by (rule onlyI[of _ _ "log ?v ''Converting manifest to YAML...'' [] @ [Stringify m]
            @ log ?v (''Ensuring output directory exists: '' @ ?dir) [] @ [Mkdir ?dir]"])
        (simp_all add: persist_and_sign_def Let_def Some log_def is_signing_def is_persisting_def)
  next
    case None
    note mk = None
    show ?thesis
    proof (cases "writeFile_error w ?mf (stringify w m)")
      case (Some e)
      show ?thesis
        by (rule onlyI[of _ _ "log ?v ''Converting manifest to YAML...'' [] @ [Stringify m]
              @ log ?v (''Ensuring output directory exists: '' @ ?dir) [] @ [Mkdir ?dir]
              @ log ?v (''Writing manifest to: '' @ ?mf) [] @ [WriteFile ?mf (stringify w m)]"])
          (simp_all add: persist_and_sign_def Let_def Some mk log_def is_signing_def is_persisting_def)
    next
      case None
      let ?pre = "log ?v ''Converting manifest to YAML...'' [] @ [Stringify m]
              @ log ?v (''Ensuring output directory exists: '' @ ?dir) [] @ [Mkdir ?dir]
              @ log ?v (''Writing manifest to: '' @ ?mf) [] @ [WriteFile ?mf (stringify w m)]
              @ log ?v ''Signing manifest file...'' []
              @ log ?v (if truthy (password opts) then ''Password provided for key decryption''
                        else ''No password provided, you may need to enter it manually if prompted'') []"
      have pre: "list_all ?Q ?pre" by (simp add: log_def is_signing_def is_persisting_def)
      have "only ?Q (tr @ ?pre) (persist_and_sign w opts k m tr)"
        using sign[of "tr @ ?pre" "''Signing distributable files...''"
            "''Release metadata creation completed successfully!''"]
        by (cases "default_to False (verbose opts)")
          (simp_all add: persist_and_sign_def Let_def None mk log_def)
      then show ?thesis using pre by (rule only_after)
    qed
  qed
qed

lemma persist_and_sign_steps:
  fixes w opts k m tr
  defines "R \<equiv> persist_and_sign w opts k m tr"
    and "dir \<equiv> default_to ''.'' (outputDir opts)"
    and "mf \<equiv> manifestFile_of opts"
  shows "\<exists>s. steps (added tr R)
             = [Mkdir dir] @ (if mkdir_error w dir = None then [WriteFile mf (stringify w m)] else [])
               @ s
           \<and> (if mkdir_error w dir = None \<and> writeFile_error w mf (stringify w m) = None
              then sign_shape k (password opts) (mf # distributables opts) (fst R) s
                   \<and> (\<forall>r. fst R = Resolved r \<longrightarrow> r = mf)
              else s = [] \<and> (\<exists>e. fst R = Rejected e))"
proof -
  let ?v = "default_to False (verbose opts)"
  show ?thesis
  proof (cases "mkdir_error w dir")
    case (Some e)
    then show ?thesis
      unfolding R_def dir_def mf_def
      by (cases ?v) (simp_all add: persist_and_sign_def Let_def log_def added_def)
  next
    case None
    note mk = None
    show ?thesis
    proof (cases "writeFile_error w mf (stringify w m)")
      case (Some e)
      then show ?thesis using mk
        unfolding R_def dir_def mf_def
        by (cases ?v) (simp_all add: persist_and_sign_def Let_def log_def added_def)
    next
      case None
      let ?pre = "log ?v ''Converting manifest to YAML...'' [] @ [Stringify m]
              @ log ?v (''Ensuring output directory exists: '' @ dir) [] @ [Mkdir dir]
              @ log ?v (''Writing manifest to: '' @ mf) [] @ [WriteFile mf (stringify w m)]
              @ log ?v ''Signing manifest file...'' []
              @ log ?v (if truthy (password opts) then ''Password provided for key decryption''
                        else ''No password provided, you may need to enter it manually if prompted'') []"
      let ?S = "await (signFile w mf k (password opts) (tr @ ?pre))
         (\<lambda>u tr6. await (sign_each w ?v k (password opts) (length (distributables opts)) 0
                            (distributables opts) (log ?v ''Signing distributable files...'' tr6))
                     (\<lambda>u' tr7. (Resolved mf,
                        log ?v ''Release metadata creation completed successfully!'' tr7)))"
      have eq: "R = ?S"
        using mk None unfolding R_def dir_def mf_def
        by (cases ?v) (simp_all add: persist_and_sign_def Let_def log_def)
      note sp = signing_part[of w mf k "password opts" "tr @ ?pre" ?v
          "length (distributables opts)" "distributables opts" "''Signing distributable files...''"
          "''Release metadata creation completed successfully!''"]
      from sp have s1: "snd ?S = (tr @ ?pre) @ added (tr @ ?pre) ?S"
        and s2: "sign_shape k (password opts) (mf # distributables opts) (fst ?S)
                   (steps (added (tr @ ?pre) ?S))"
        and s3: "\<forall>r. fst ?S = Resolved r \<longrightarrow> r = mf" by blast+
      from after_prefix[OF s1 refl] have "added tr ?S = ?pre @ added (tr @ ?pre) ?S" by blast
      then have "steps (added tr ?S)
          = [Mkdir dir, WriteFile mf (stringify w m)] @ steps (added (tr @ ?pre) ?S)"
        by simp
      with s2 s3 show ?thesis using mk None unfolding eq by simp
    qed
  qed
qed

section \<open>Building the manifest\<close>

lemma reads_simps [simp]:
  "reads [] = []"
  "reads (xs @ ys) = reads xs @ reads ys"
  "reads (log v m tr) = reads tr"
  "reads (ReadFile p # xs) = p # reads xs"
  by (simp_all add: reads_def log_def)

lemma reads_inspection: "list_all is_inspection xs \<Longrightarrow> reads xs = []"
  by (induction xs) (auto simp: reads_def is_inspection_def split: event.splits)

lemma reads_signing: "list_all is_signing xs \<Longrightarrow> reads xs = []"
  by (induction xs) (auto simp: reads_def is_signing_def split: event.splits)

lemma inspect_start_append:
  "inspect_start v n i fs tr = tr @ inspect_start v n i fs []"
proof (induction fs arbitrary: i tr)
  case Nil
  show ?case by simp
next
  case (Cons f fs)
  let ?m = "''Processing file '' @ String_nat (i + 1) @ ''/'' @ String_nat n @ '': '' @ basename f"
  have "inspect_start v n i (f # fs) tr
        = (log v ?m tr @ [CreateReadStream f, Stat f]) @ inspect_start v n (i + 1) fs []"
    using Cons.IH[of "i + 1" "log v ?m tr @ [CreateReadStream f, Stat f]"] by simp
  moreover have "inspect_start v n i (f # fs) []
        = (log v ?m [] @ [CreateReadStream f, Stat f]) @ inspect_start v n (i + 1) fs []"
    using Cons.IH[of "i + 1" "log v ?m [] @ [CreateReadStream f, Stat f]"] by simp
  ultimately show ?case by (simp add: log_def)
qed

lemma inspect_start_inspection: "list_all is_inspection (inspect_start v n i fs [])"
proof (induction fs arbitrary: i)
  case Nil
  show ?case by simp
next
  case (Cons f fs)
  let ?m = "''Processing file '' @ String_nat (i + 1) @ ''/'' @ String_nat n @ '': '' @ basename f"
  have "inspect_start v n i (f # fs) []
        = (log v ?m [] @ [CreateReadStream f, Stat f]) @ inspect_start v n (i + 1) fs []"
    using inspect_start_append[of v n "i + 1" fs "log v ?m [] @ [CreateReadStream f, Stat f]"]
    by simp
  then show ?case using Cons.IH[of "i + 1"] by (simp add: log_def is_inspection_def)
qed

lemma only_inspect_finish: "only is_inspection tr (inspect_finish w v base fs tr)"
proof (induction fs arbitrary: tr)
  case Nil
  show ?case by (simp add: only_def)
next
  case (Cons f fs)
  show ?case
  proof (cases "getFileInfo w f")
    case (Inl e)
    then show ?thesis by (simp add: only_def)
  next
    case (Inr info)
    obtain d n where info: "info = (d, n)" by (cases info)
    let ?tr2 = "log v (''Detected architecture: ''
                  @ default_to ''unknown'' (extractArchFromFilename (basename f)))
                 (log v (''File size: '' @ String_nat n @ '' bytes'') tr)"
    let ?K = "\<lambda>entries tr3. (Resolved (file_entry base f d n
                 (extractArchFromFilename (basename f)) # entries), tr3)"
    have log_ok: "\<And>s. is_inspection (ConsoleLog s)" by (simp add: is_inspection_def)
    have "only is_inspection ?tr2 (await (inspect_finish w v base fs ?tr2) ?K)"
      by (rule only_await[OF Cons.IH]) (simp add: only_def)
    then have "only is_inspection (log v (''File size: '' @ String_nat n @ '' bytes'') tr)
                 (await (inspect_finish w v base fs ?tr2) ?K)"
      by (rule only_after_log[where P=is_inspection, OF _ log_ok])
    then have "only is_inspection tr (await (inspect_finish w v base fs ?tr2) ?K)"
      by (rule only_after_log[where P=is_inspection, OF _ log_ok])
    then show ?thesis using Inr info by (simp add: Let_def)
  qed
qed

lemma inspect_finish_entries:
  "fst (inspect_finish w v (default_to [] (baseUrl opts)) fs tr) = Resolved es
   \<Longrightarrow> list_all2 (entry_for w opts) fs es"
proof (induction fs arbitrary: tr es)
  case Nil
  then show ?case by simp
next
  case (Cons f fs)
  from Cons.prems obtain d n where info: "getFileInfo w f = Inr (d, n)"
    by (cases "getFileInfo w f") auto
  let ?tr2 = "log v (''Detected architecture: ''
                @ default_to ''unknown'' (extractArchFromFilename (basename f)))
               (log v (''File size: '' @ String_nat n @ '' bytes'') tr)"
  let ?e = "file_entry (default_to [] (baseUrl opts)) f d n (extractArchFromFilename (basename f))"
  from Cons.prems info obtain es' where
    rest: "fst (inspect_finish w v (default_to [] (baseUrl opts)) fs ?tr2) = Resolved es'"
    and es: "es = ?e # es'"
    by (auto simp: Let_def fst_await split: outcome.splits)
  have "entry_for w opts f ?e"
    using info by (auto simp: entry_for_def getFileInfo_def split: sum.splits)
  with Cons.IH[OF rest] es show ?case by simp
qed

lemma build_eq:
  "build w opts tr =
     await (case releaseNotes opts of
              Some text_given \<Rightarrow>
                (Resolved (Some text_given),
                 log (default_to False (verbose opts))
                   (''Processing '' @ String_nat (length (distributables opts))
                    @ '' distributable files'') tr)
            | None \<Rightarrow>
                readReleaseNotes w (releaseNotesPath opts)
                  (log (default_to False (verbose opts))
                     (''Processing '' @ String_nat (length (distributables opts))
                      @ '' distributable files'') tr))
       (\<lambda>notes tr2.
          await (inspect_finish w (default_to False (verbose opts)) (default_to [] (baseUrl opts))
                   (distributables opts)
                   (inspect_start (default_to False (verbose opts)) (length (distributables opts)) 0
                      (distributables opts)
                      (log (default_to False (verbose opts)) ''Calculating file hashes and metadata...''
                         (log (default_to False (verbose opts))
                            (if truthy notes then ''Release notes loaded''
                             else ''No release notes provided'') tr2))))
            (\<lambda>fileEntries tr6.
               (Resolved (manifest_of w opts (hd (distributables opts)) notes fileEntries),
                if default_to False (autoUpdaterCompat opts) \<and> length fileEntries > 0
                then log (default_to False (verbose opts)) ''Adding auto-updater compatibility fields''
                       (log (default_to False (verbose opts)) ''Creating manifest object...''
                          (log (default_to False (verbose opts))
                             (''Using version: '' @ m_version
                                (manifest_of w opts (hd (distributables opts)) notes fileEntries))
                             tr6))
                else log (default_to False (verbose opts)) ''Creating manifest object...''
                       (log (default_to False (verbose opts))
                          (''Using version: '' @ m_version
                             (manifest_of w opts (hd (distributables opts)) notes fileEntries))
                          tr6))))"
  unfolding build_def Let_def by (rule refl)

lemma notes_props:
  fixes w opts tr msg
  defines "N \<equiv> (case releaseNotes opts of
              Some text_given \<Rightarrow> (Resolved (Some text_given), log (default_to False (verbose opts)) msg tr)
            | None \<Rightarrow> readReleaseNotes w (releaseNotesPath opts)
                        (log (default_to False (verbose opts)) msg tr))"
  shows "only is_preparation tr N"
    and "reads (added tr N) = (if releaseNotes opts = None \<and> truthy (releaseNotesPath opts)
                               then [the (releaseNotesPath opts)] else [])"
    and "fst N = Resolved notes \<Longrightarrow> notes = resolved_notes w opts"
    and "fst N \<noteq> Pending"
proof -
  let ?v = "default_to False (verbose opts)"
  let ?evs = "log ?v msg [] @ (if releaseNotes opts = None \<and> truthy (releaseNotesPath opts)
                               then [ReadFile (the (releaseNotesPath opts))] else [])"
  have sn: "snd N = tr @ ?evs"
    unfolding N_def
    by (cases ?v)
      (auto simp: readReleaseNotes_def log_def Let_def split: option.splits sum.splits)
  have "list_all is_preparation ?evs" by (simp add: log_def is_preparation_def)
  with sn show "only is_preparation tr N" by (rule onlyI)
  from added_eqI[OF sn]
  show "reads (added tr N) = (if releaseNotes opts = None \<and> truthy (releaseNotesPath opts)
                               then [the (releaseNotesPath opts)] else [])"
    by simp
  show "fst N = Resolved notes \<Longrightarrow> notes = resolved_notes w opts"
    unfolding N_def
    by (auto simp: readReleaseNotes_def resolved_notes_def Let_def
        split: option.splits sum.splits if_splits)
  show "fst N \<noteq> Pending"
    unfolding N_def
    by (auto simp: readReleaseNotes_def Let_def split: option.splits sum.splits)
qed

lemma inspect_part:
  fixes w opts nts tr2
  defines "v \<equiv> default_to False (verbose opts)"
  defines "I \<equiv> await (inspect_finish w v (default_to [] (baseUrl opts))
                   (distributables opts)
                   (inspect_start v (length (distributables opts)) 0
                      (distributables opts)
                      (log v ''Calculating file hashes and metadata...''
                         (log v (if truthy nts then ''Release notes loaded''
                             else ''No release notes provided'') tr2))))
            (\<lambda>fileEntries tr6.
               (Resolved (manifest_of w opts (hd (distributables opts)) nts fileEntries),
                if default_to False (autoUpdaterCompat opts) \<and> length fileEntries > 0
                then log v ''Adding auto-updater compatibility fields''
                       (log v ''Creating manifest object...''
                          (log v
                             (''Using version: '' @ m_version
                                (manifest_of w opts (hd (distributables opts)) nts fileEntries))
                             tr6))
                else log v ''Creating manifest object...''
                       (log v
                          (''Using version: '' @ m_version
                             (manifest_of w opts (hd (distributables opts)) nts fileEntries))
                          tr6)))"
  shows "only is_inspection tr2 I"
    and "fst I = Resolved m \<Longrightarrow>
           \<exists>es. list_all2 (entry_for w opts) (distributables opts) es
                \<and> m = manifest_of w opts (hd (distributables opts)) nts es"
proof -
  let ?ds = "distributables opts"
  let ?l2 = "log v ''Calculating file hashes and metadata...'' []"
  let ?l1 = "log v (if truthy nts then ''Release notes loaded''
                             else ''No release notes provided'') []"
  let ?pre = "?l1 @ ?l2 @ inspect_start v (length ?ds) 0 ?ds []"
  have tr5: "inspect_start v (length ?ds) 0 ?ds
               (log v ''Calculating file hashes and metadata...''
                  (log v (if truthy nts then ''Release notes loaded''
                             else ''No release notes provided'') tr2))
             = tr2 @ ?pre"
    by (subst inspect_start_append) (simp add: log_def)
  have pre: "list_all is_inspection ?pre"
    using inspect_start_inspection[of v "length ?ds" 0 ?ds]
    by (simp add: log_def is_inspection_def)
  have "only is_inspection (tr2 @ ?pre) I"
    unfolding I_def tr5
  proof (rule only_await[OF only_inspect_finish])
    fix x
    let ?s = "snd (inspect_finish w v (default_to [] (baseUrl opts)) ?ds (tr2 @ ?pre))"
    let ?mv = "''Using version: '' @ m_version (manifest_of w opts (hd ?ds) nts x)"
    show "only is_inspection ?s
       (Resolved (manifest_of w opts (hd ?ds) nts x),
        if default_to False (autoUpdaterCompat opts) \<and> 0 < length x
        then log v ''Adding auto-updater compatibility fields''
               (log v ''Creating manifest object...'' (log v ?mv ?s))
        else log v ''Creating manifest object...'' (log v ?mv ?s))"
      by (rule onlyI[of _ _ "log v ?mv [] @ log v ''Creating manifest object...'' []
              @ (if default_to False (autoUpdaterCompat opts) \<and> 0 < length x
                 then log v ''Adding auto-updater compatibility fields'' [] else [])"])
        (simp_all add: log_def is_inspection_def)
  qed
  then show "only is_inspection tr2 I" using pre by (rule only_after)
  show "fst I = Resolved m \<Longrightarrow>
           \<exists>es. list_all2 (entry_for w opts) ?ds es \<and> m = manifest_of w opts (hd ?ds) nts es"
    unfolding I_def
    by (auto simp: fst_await split: outcome.splits dest: inspect_finish_entries)
qed

lemma build_props:
  shows build_only: "only is_preparation tr (build w opts tr)"
    and build_reads: "reads (added tr (build w opts tr))
           = (if releaseNotes opts = None \<and> truthy (releaseNotesPath opts)
              then [the (releaseNotesPath opts)] else [])"
    and build_manifest: "fst (build w opts tr) = Resolved m \<Longrightarrow>
           \<exists>es. list_all2 (entry_for w opts) (distributables opts) es
                \<and> m = manifest_of w opts (hd (distributables opts)) (resolved_notes w opts) es"
    and build_rejected_notes: "releaseNotes opts = None \<Longrightarrow> truthy (releaseNotesPath opts) \<Longrightarrow>
           content_of w (the (releaseNotesPath opts)) = Inl e \<Longrightarrow>
           fst (build w opts tr) = Rejected (''Failed to read release notes from ''
              @ the (releaseNotesPath opts) @ '': '' @ e)"
proof -
  let ?v = "default_to False (verbose opts)"
  let ?m0 = "''Processing '' @ String_nat (length (distributables opts)) @ '' distributable files''"
  let ?N = "(case releaseNotes opts of
              Some text_given \<Rightarrow> (Resolved (Some text_given), log ?v ?m0 tr)
            | None \<Rightarrow> readReleaseNotes w (releaseNotesPath opts) (log ?v ?m0 tr))"
  let ?K = "(\<lambda>nts tr2.
          await (inspect_finish w ?v (default_to [] (baseUrl opts))
                   (distributables opts)
                   (inspect_start ?v (length (distributables opts)) 0
                      (distributables opts)
                      (log ?v ''Calculating file hashes and metadata...''
                         (log ?v (if truthy nts then ''Release notes loaded''
                             else ''No release notes provided'') tr2))))
            (\<lambda>fileEntries tr6.
               (Resolved (manifest_of w opts (hd (distributables opts)) nts fileEntries),
                if default_to False (autoUpdaterCompat opts) \<and> length fileEntries > 0
                then log ?v ''Adding auto-updater compatibility fields''
                       (log ?v ''Creating manifest object...''
                          (log ?v
                             (''Using version: '' @ m_version
                                (manifest_of w opts (hd (distributables opts)) nts fileEntries))
                             tr6))
                else log ?v ''Creating manifest object...''
                       (log ?v
                          (''Using version: '' @ m_version
                             (manifest_of w opts (hd (distributables opts)) nts fileEntries))
                          tr6))))"
  have eq: "build w opts tr = await ?N ?K" by (rule build_eq)
  note n = notes_props[where w=w and opts=opts and tr=tr and msg="?m0"]
  have k_insp: "only is_inspection tr2 (?K x tr2)" for x tr2
    by (rule inspect_part(1))
  have k_prep: "only is_preparation tr2 (?K x tr2)" for x tr2
    by (rule only_mono[where Q=is_preparation, OF k_insp])
      (auto simp: is_inspection_def is_preparation_def split: event.splits)
  show "only is_preparation tr (build w opts tr)"
    unfolding eq
  proof (rule only_await[where k="?K"])
    show "only is_preparation tr ?N" by (rule n(1))
    show "only is_preparation (snd ?N) (?K x (snd ?N))" for x by (rule k_prep)
  qed
  note aw = snd_await[of ?N tr ?K, OF only_snd[OF n(1)] only_snd[OF k_prep]]
  have "reads (added tr (await ?N ?K)) = reads (added tr ?N)"
    using aw reads_inspection[OF only_all[OF k_insp]]
    by (simp split: outcome.splits)
  then show "reads (added tr (build w opts tr))
           = (if releaseNotes opts = None \<and> truthy (releaseNotesPath opts)
              then [the (releaseNotesPath opts)] else [])"
    unfolding eq using n(2) by simp
  show "\<exists>es. list_all2 (entry_for w opts) (distributables opts) es
                \<and> m = manifest_of w opts (hd (distributables opts)) (resolved_notes w opts) es"
    if "fst (build w opts tr) = Resolved m"
  proof -
    from that obtain x where x: "fst ?N = Resolved x" and m: "fst (?K x (snd ?N)) = Resolved m"
      unfolding eq by (auto simp: fst_await split: outcome.splits)
    from n(3)[OF x] have "x = resolved_notes w opts" .
    with inspect_part(2)[OF m] show ?thesis by simp
  qed
  show "fst (build w opts tr) = Rejected (''Failed to read release notes from ''
              @ the (releaseNotesPath opts) @ '': '' @ e)"
    if "releaseNotes opts = None" "truthy (releaseNotesPath opts)"
      "content_of w (the (releaseNotesPath opts)) = Inl e"
    unfolding eq using that by (simp add: fst_await readReleaseNotes_def Let_def)
qed

section \<open>The whole run\<close>

lemma run_invalid:
  assumes "distributables opts = [] \<or> \<not> truthy (secretKeyPath opts)"
  shows "added tr (createReleaseMetadata w opts tr)
         = log (default_to False (verbose opts)) ''Starting release metadata creation...'' []"
  using assms by (auto simp: createReleaseMetadata_def Let_def)

lemma run_valid:
  fixes w opts tr
  defines "B \<equiv> build w opts
                 (log (default_to False (verbose opts)) ''Starting release metadata creation...'' tr)"
  defines "run \<equiv> createReleaseMetadata w opts tr"
  assumes "distributables opts \<noteq> []" and "truthy (secretKeyPath opts)"
  shows "snd run = tr @ added tr run"
    and "\<exists>pre. list_all is_preparation pre
           \<and> reads pre = (if releaseNotes opts = None \<and> truthy (releaseNotesPath opts)
                           then [the (releaseNotesPath opts)] else [])
           \<and> added tr run
              = pre @ (case fst B of
                         Resolved m \<Rightarrow>
                           added (snd B) (persist_and_sign w opts (the (secretKeyPath opts)) m (snd B))
                       | Rejected e \<Rightarrow> [] | Pending \<Rightarrow> [])"
    and "fst run = (case fst B of
                      Resolved m \<Rightarrow>
                        fst (persist_and_sign w opts (the (secretKeyPath opts)) m (snd B))
                    | Rejected e \<Rightarrow> Rejected e | Pending \<Rightarrow> Pending)"
proof -
  let ?v = "default_to False (verbose opts)"
  let ?tr1 = "log ?v ''Starting release metadata creation...'' tr"
  let ?K = "\<lambda>manifest tr2. persist_and_sign w opts (the (secretKeyPath opts)) manifest tr2"
  have eq: "run = await B ?K"
    using assms(3,4) unfolding run_def B_def by (simp add: createReleaseMetadata_def Let_def)
  have b0: "only is_preparation ?tr1 B" unfolding B_def by (rule build_only)
  have b1: "only is_preparation tr B"
    by (rule only_after_log[where P=is_preparation, OF b0]) (simp add: is_preparation_def)
  have k1: "\<And>x. snd (?K x (snd B)) = snd B @ added (snd B) (?K x (snd B))"
    by (rule only_snd[OF only_persist_and_sign])
  note aw = snd_await[of B tr ?K, OF only_snd[OF b1] k1]
  from aw show "snd run = tr @ added tr run" unfolding eq by blast
  from after_prefix[OF only_snd[OF b0] log_append]
  have "added tr B = log ?v ''Starting release metadata creation...'' [] @ added ?tr1 B" by blast
  then have "reads (added tr B) = (if releaseNotes opts = None \<and> truthy (releaseNotesPath opts)
                           then [the (releaseNotesPath opts)] else [])"
    unfolding B_def by (simp add: build_reads)
  moreover have "list_all is_preparation (added tr B)" by (rule only_all[OF b1])
  moreover have "added tr run
              = added tr B @ (case fst B of
                         Resolved m \<Rightarrow>
                           added (snd B) (persist_and_sign w opts (the (secretKeyPath opts)) m (snd B))
                       | Rejected e \<Rightarrow> [] | Pending \<Rightarrow> [])"
    unfolding eq using aw by (simp split: outcome.splits)
  ultimately show "\<exists>pre. list_all is_preparation pre
           \<and> reads pre = (if releaseNotes opts = None \<and> truthy (releaseNotesPath opts)
                           then [the (releaseNotesPath opts)] else [])
           \<and> added tr run
              = pre @ (case fst B of
                         Resolved m \<Rightarrow>
                           added (snd B) (persist_and_sign w opts (the (secretKeyPath opts)) m (snd B))
                       | Rejected e \<Rightarrow> [] | Pending \<Rightarrow> [])"
    by blast
  show "fst run = (case fst B of
                      Resolved m \<Rightarrow>
                        fst (persist_and_sign w opts (the (secretKeyPath opts)) m (snd B))
                    | Rejected e \<Rightarrow> Rejected e | Pending \<Rightarrow> Pending)"
    unfolding eq by (simp add: fst_await split: outcome.splits)
qed

lemma persist_and_sign_stringify:
  "Stringify m \<in> set (added tr (persist_and_sign w opts k m tr))"
proof -
  let ?v = "default_to False (verbose opts)"
  let ?dir = "default_to ''.'' (outputDir opts)"
  let ?mf = "manifestFile_of opts"
  let ?R = "persist_and_sign w opts k m tr"
  show ?thesis
  proof (cases "mkdir_error w ?dir")
    case (Some e)
    then show ?thesis
      by (cases ?v) (simp_all add: persist_and_sign_def Let_def log_def added_def)
  next
    case None
    note mk = None
    show ?thesis
    proof (cases "writeFile_error w ?mf (stringify w m)")
      case (Some e)
      then show ?thesis using mk
        by (cases ?v) (simp_all add: persist_and_sign_def Let_def log_def added_def)
    next
      case None
      let ?pre = "log ?v ''Converting manifest to YAML...'' [] @ [Stringify m]
              @ log ?v (''Ensuring output directory exists: '' @ ?dir) [] @ [Mkdir ?dir]
              @ log ?v (''Writing manifest to: '' @ ?mf) [] @ [WriteFile ?mf (stringify w m)]
              @ log ?v ''Signing manifest file...'' []
              @ log ?v (if truthy (password opts) then ''Password provided for key decryption''
                        else ''No password provided, you may need to enter it manually if prompted'') []"
      let ?S = "await (signFile w ?mf k (password opts) (tr @ ?pre))
         (\<lambda>u tr6. await (sign_each w ?v k (password opts) (length (distributables opts)) 0
                            (distributables opts) (log ?v ''Signing distributable files...'' tr6))
                     (\<lambda>u' tr7. (Resolved ?mf,
                        log ?v ''Release metadata creation completed successfully!'' tr7)))"
      have eq: "?R = ?S"
        using mk None
        by (cases ?v) (simp_all add: persist_and_sign_def Let_def log_def)
      note sp = signing_part[of w ?mf k "password opts" "tr @ ?pre" ?v
          "length (distributables opts)" "distributables opts" "''Signing distributable files...''"
          "''Release metadata creation completed successfully!''"]
      from sp have s1: "snd ?S = (tr @ ?pre) @ added (tr @ ?pre) ?S" by blast
      from after_prefix[OF s1 refl] have "added tr ?S = ?pre @ added (tr @ ?pre) ?S" by blast
      then have "Stringify m \<in> set (added tr ?S)" by simp
      then show ?thesis unfolding eq .
    qed
  qed
qed

lemma steps_preparation: "list_all is_preparation xs \<Longrightarrow> steps xs = []"
  by (induction xs) (auto simp: steps_def is_step_def is_preparation_def split: event.splits)

lemma stringify_preparation: "list_all is_preparation xs \<Longrightarrow> Stringify m \<notin> set xs"
  by (induction xs) (auto simp: is_preparation_def split: event.splits)

lemma run_stringify:
  assumes "Stringify m \<in> set (added tr (createReleaseMetadata w opts tr))"
  shows "distributables opts \<noteq> [] \<and> truthy (secretKeyPath opts)
         \<and> fst (build w opts (log (default_to False (verbose opts))
                  ''Starting release metadata creation...'' tr)) = Resolved m"
proof -
  let ?B = "build w opts (log (default_to False (verbose opts))
                  ''Starting release metadata creation...'' tr)"
  have valid: "distributables opts \<noteq> [] \<and> truthy (secretKeyPath opts)"
  proof (rule ccontr)
    assume "\<not> (distributables opts \<noteq> [] \<and> truthy (secretKeyPath opts))"
    then have "distributables opts = [] \<or> \<not> truthy (secretKeyPath opts)" by blast
    from run_invalid[OF this] assms show False by (simp add: log_def split: if_splits)
  qed
  then have v1: "distributables opts \<noteq> []" and v2: "truthy (secretKeyPath opts)" by blast+
  from run_valid(2)[OF v1 v2, where w=w and tr=tr] obtain pre where
    pre: "list_all is_preparation pre"
    and ad: "added tr (createReleaseMetadata w opts tr)
              = pre @ (case fst ?B of
                         Resolved m \<Rightarrow>
                           added (snd ?B) (persist_and_sign w opts (the (secretKeyPath opts)) m (snd ?B))
                       | Rejected e \<Rightarrow> [] | Pending \<Rightarrow> [])"
    by blast
  from assms ad stringify_preparation[OF pre]
  obtain m0 where b: "fst ?B = Resolved m0"
    and "Stringify m \<in> set (added (snd ?B)
           (persist_and_sign w opts (the (secretKeyPath opts)) m0 (snd ?B)))"
    by (cases "fst ?B") auto
  with only_all[OF only_persist_and_sign[where w=w and opts=opts and m=m0 and tr="snd ?B"
        and k="the (secretKeyPath opts)"]]
  have "is_persisting w opts m0 (Stringify m)" by (simp add: list_all_iff)
  then have "m = m0" by (simp add: is_persisting_def is_signing_def)
  with b valid show ?thesis by simp
qed

section \<open>The manifest object\<close>

lemma run_manifest:
  assumes "Stringify m \<in> set (added tr (createReleaseMetadata w opts tr))"
  shows "distributables opts \<noteq> []"
    and "\<exists>es. list_all2 (entry_for w opts) (distributables opts) es
              \<and> m = manifest_of w opts (hd (distributables opts)) (resolved_notes w opts) es"
  using run_stringify[OF assms] build_manifest by blast+

lemma url_file_entry:
  "f_url (file_entry (default_to [] (baseUrl opts)) f d n a)
   = (if truthy (baseUrl opts) then the (baseUrl opts) @ ''/'' @ basename f else basename f)"
  by (simp add: file_entry_def default_to_def truthy_def split: option.splits)

lemma entry_for_url:
  "entry_for w opts f e \<Longrightarrow>
   f_url e = (if truthy (baseUrl opts) then the (baseUrl opts) @ ''/'' @ basename f else basename f)"
  unfolding entry_for_def using url_file_entry by blast

lemma files_manifest_of [simp]: "m_files (manifest_of w opts first nts es) = es"
  by (simp add: manifest_of_def Let_def)

text \<open>
  C1, as amended. Whenever a run hands a manifest object to the serialiser, its files list
  is not empty. With the compatibility flag set, the top-level \<open>sha512\<close> and \<open>size\<close> are
  those of the first entry of the files list, and the top-level \<open>path\<close> is the base name
  of the first distributable; the first entry's \<open>url\<close> is that same base name when no base
  URL is supplied, and the base URL, a slash and that base name otherwise. With the flag
  unset (absent or false) the three top-level fields are absent.
\<close>

theorem compat_fields:
  assumes "Stringify m \<in> set (added tr (createReleaseMetadata w opts tr))"
  shows "m_files m \<noteq> []
       \<and> (if autoUpdaterCompat opts = Some True then
            m_path m = Some (basename (hd (distributables opts)))
          \<and> m_sha512 m = Some (f_sha512 (hd (m_files m)))
          \<and> m_size m = Some (f_size (hd (m_files m)))
          \<and> f_url (hd (m_files m))
              = (if truthy (baseUrl opts) then the (baseUrl opts) @ ''/'' @ the (m_path m)
                 else the (m_path m))
          else m_path m = None \<and> m_sha512 m = None \<and> m_size m = None)"
proof -
  from run_manifest[OF assms] obtain es where
    ds: "distributables opts \<noteq> []"
    and es: "list_all2 (entry_for w opts) (distributables opts) es"
    and m: "m = manifest_of w opts (hd (distributables opts)) (resolved_notes w opts) es"
    by blast
  from ds es obtain d ds' e es' where
    dd: "distributables opts = d # ds'" and ee: "es = e # es'" and first: "entry_for w opts d e"
    by (cases "distributables opts"; cases es) auto
  have url: "f_url e = (if truthy (baseUrl opts) then the (baseUrl opts) @ ''/'' @ basename d
                        else basename d)"
    by (rule entry_for_url[OF first])
  show ?thesis
  proof (cases "autoUpdaterCompat opts = Some True")
    case True
    then show ?thesis using url unfolding m dd ee
      by (simp add: manifest_of_def Let_def default_to_def)
  next
    case False
    then have "\<not> default_to False (autoUpdaterCompat opts)"
      by (cases "autoUpdaterCompat opts") (auto simp: default_to_def)
    with False show ?thesis unfolding m dd ee
      by (simp add: manifest_of_def Let_def)
  qed
qed

theorem compat_fields_witness:
  "m_files (release_manifest []) \<noteq> []
   \<and> m_path (release_manifest []) = Some (basename ''dist/App-1.0.0.dmg'')
   \<and> m_sha512 (release_manifest []) = Some (f_sha512 (hd (m_files (release_manifest []))))
   \<and> m_size (release_manifest []) = Some (f_size (hd (m_files (release_manifest []))))
   \<and> f_url (hd (m_files (release_manifest []))) = the (m_path (release_manifest []))"
proof -
  have run: "Stringify (release_manifest [])
      \<in> set (added [] (createReleaseMetadata good_world (release_options None) []))"
    by code_simp
  have opts: "autoUpdaterCompat (release_options None) = Some True"
    "\<not> truthy (baseUrl (release_options None))"
    "hd (distributables (release_options None)) = ''dist/App-1.0.0.dmg''"
    by (simp_all add: release_options_def sample_options_def truthy_def)
  from compat_fields[OF run] opts show ?thesis by simp
qed

text \<open>
  C1 as stated fails for \<open>path\<close> when a base URL is supplied: the first entry of the files
  list then has the url \<^verbatim>\<open>https://example.com/downloads/App-1.0.0.dmg\<close>, the top-level
  \<open>path\<close> is \<^verbatim>\<open>App-1.0.0.dmg\<close>, and the entry has no other field that holds a name.
\<close>

theorem compat_path_counterexample:
  "Stringify (release_manifest ''https://example.com/downloads/'')
     \<in> set (added [] (createReleaseMetadata good_world
                         (release_options (Some ''https://example.com/downloads'')) []))
   \<and> m_path (release_manifest ''https://example.com/downloads/'') = Some ''App-1.0.0.dmg''
   \<and> f_url (hd (m_files (release_manifest ''https://example.com/downloads/'')))
       = ''https://example.com/downloads/App-1.0.0.dmg''
   \<and> m_path (release_manifest ''https://example.com/downloads/'')
       \<noteq> Some (f_url (hd (m_files (release_manifest ''https://example.com/downloads/''))))"
  by code_simp

section \<open>The url of a file entry\<close>

lemma entry_for_urls:
  "list_all2 (entry_for w opts) fs es \<Longrightarrow>
   map f_url es
   = map (\<lambda>f. if truthy (baseUrl opts) then the (baseUrl opts) @ ''/'' @ basename f
               else basename f) fs"
  by (induction rule: list_all2_induct) (simp_all add: entry_for_url)

text \<open>
  C8, as amended. In every manifest object a run hands to the serialiser, the files list
  has one entry per distributable, in input order, and the url of each entry is the base
  URL, a slash and the base name of the distributable when a non-empty base URL is
  supplied, and the base name alone otherwise.
\<close>

theorem entry_urls:
  assumes "Stringify m \<in> set (added tr (createReleaseMetadata w opts tr))"
  shows "map f_url (m_files m)
         = map (\<lambda>f. if truthy (baseUrl opts) then the (baseUrl opts) @ ''/'' @ basename f
                     else basename f) (distributables opts)"
proof -
  from run_manifest[OF assms] obtain es where
    es: "list_all2 (entry_for w opts) (distributables opts) es"
    and m: "m = manifest_of w opts (hd (distributables opts)) (resolved_notes w opts) es"
    by blast
  show ?thesis unfolding m using entry_for_urls[OF es] by simp
qed

theorem entry_urls_witness:
  "map f_url (m_files (release_manifest ''https://example.com/downloads/''))
   = [''https://example.com/downloads/App-1.0.0.dmg'',
      ''https://example.com/downloads/App-1.0.0.zip'']"
proof -
  have run: "Stringify (release_manifest ''https://example.com/downloads/'')
      \<in> set (added [] (createReleaseMetadata good_world
                          (release_options (Some ''https://example.com/downloads'')) []))"
    by code_simp
  have opts: "truthy (baseUrl (release_options (Some ''https://example.com/downloads'')))"
    "the (baseUrl (release_options (Some ''https://example.com/downloads'')))
       = ''https://example.com/downloads''"
    "distributables (release_options (Some ''https://example.com/downloads''))
       = [''dist/App-1.0.0.dmg'', ''dist/App-1.0.0.zip'']"
    by (simp_all add: release_options_def sample_options_def truthy_def)
  have names: "basename ''dist/App-1.0.0.dmg'' = ''App-1.0.0.dmg''"
    "basename ''dist/App-1.0.0.zip'' = ''App-1.0.0.zip''"
    by code_simp+
  from entry_urls[OF run] opts show ?thesis by (simp add: names)
qed

text \<open>
  C8 as stated fails when a base URL is supplied: the url is not the base URL concatenated
  with the base name, which would be \<^verbatim>\<open>https://example.com/downloadsApp-1.0.0.dmg\<close>.
\<close>

theorem entry_url_counterexample:
  "Stringify (release_manifest ''https://example.com/downloads/'')
     \<in> set (added [] (createReleaseMetadata good_world
                         (release_options (Some ''https://example.com/downloads'')) []))
   \<and> f_url (hd (m_files (release_manifest ''https://example.com/downloads/'')))
       = ''https://example.com/downloads/App-1.0.0.dmg''
   \<and> f_url (hd (m_files (release_manifest ''https://example.com/downloads/'')))
       \<noteq> ''https://example.com/downloads'' @ basename ''dist/App-1.0.0.dmg''"
  by code_simp

section \<open>Release notes\<close>

lemma reads_persisting: "list_all (is_persisting w opts m) xs \<Longrightarrow> reads xs = []"
  by (induction xs)
    (auto simp: reads_def is_persisting_def is_signing_def split: event.splits)

lemma run_reads:
  "reads (added tr (createReleaseMetadata w opts tr))
   = (if distributables opts \<noteq> [] \<and> truthy (secretKeyPath opts)
         \<and> releaseNotes opts = None \<and> truthy (releaseNotesPath opts)
      then [the (releaseNotesPath opts)] else [])"
proof (cases "distributables opts \<noteq> [] \<and> truthy (secretKeyPath opts)")
  case False
  then have "distributables opts = [] \<or> \<not> truthy (secretKeyPath opts)" by blast
  from run_invalid[OF this, of tr w] False show ?thesis by auto
next
  case True
  then have v1: "distributables opts \<noteq> []" and v2: "truthy (secretKeyPath opts)" by blast+
  let ?B = "build w opts (log (default_to False (verbose opts))
                  ''Starting release metadata creation...'' tr)"
  from run_valid(2)[OF v1 v2, where w=w and tr=tr] obtain pre where
    pre: "reads pre = (if releaseNotes opts = None \<and> truthy (releaseNotesPath opts)
                           then [the (releaseNotesPath opts)] else [])"
    and ad: "added tr (createReleaseMetadata w opts tr)
              = pre @ (case fst ?B of
                         Resolved m \<Rightarrow>
                           added (snd ?B) (persist_and_sign w opts (the (secretKeyPath opts)) m (snd ?B))
                       | Rejected e \<Rightarrow> [] | Pending \<Rightarrow> [])"
    by blast
  have "reads (case fst ?B of
                 Resolved m \<Rightarrow>
                   added (snd ?B) (persist_and_sign w opts (the (secretKeyPath opts)) m (snd ?B))
               | Rejected e \<Rightarrow> [] | Pending \<Rightarrow> []) = []"
    by (cases "fst ?B")
      (simp_all add: reads_persisting[OF only_all[OF only_persist_and_sign]])
  with pre ad True show ?thesis by simp
qed

text \<open>
  C9. The notes a run uses are \<open>resolved_notes\<close>: the explicit string when one is given,
  else the content of the notes file when a (non-empty) path is given, else none. The
  manifest object has the field \<open>releaseNotes\<close> exactly when these notes are a non-empty
  string, and then it holds them. The notes file is read only by a run that has passed
  validation, with no explicit string and a path given; in particular an explicit string
  keeps the file from being read. When that read fails, the run is rejected.
\<close>

theorem release_notes:
  "(Stringify m \<in> set (added tr (createReleaseMetadata w opts tr)) \<longrightarrow>
      m_releaseNotes m = (if truthy (resolved_notes w opts) then resolved_notes w opts else None))
   \<and> reads (added tr (createReleaseMetadata w opts tr))
       = (if distributables opts \<noteq> [] \<and> truthy (secretKeyPath opts)
             \<and> releaseNotes opts = None \<and> truthy (releaseNotesPath opts)
          then [the (releaseNotesPath opts)] else [])
   \<and> (distributables opts \<noteq> [] \<and> truthy (secretKeyPath opts) \<and> releaseNotes opts = None
        \<and> truthy (releaseNotesPath opts) \<and> content_of w (the (releaseNotesPath opts)) = Inl e \<longrightarrow>
      fst (createReleaseMetadata w opts tr)
        = Rejected (''Failed to read release notes from '' @ the (releaseNotesPath opts)
                    @ '': '' @ e))"
proof (intro conjI impI)
  assume "Stringify m \<in> set (added tr (createReleaseMetadata w opts tr))"
  from run_manifest(2)[OF this] obtain es where
    "m = manifest_of w opts (hd (distributables opts)) (resolved_notes w opts) es" by blast
  then show "m_releaseNotes m
      = (if truthy (resolved_notes w opts) then resolved_notes w opts else None)"
    by (simp add: manifest_of_def Let_def)
next
  show "reads (added tr (createReleaseMetadata w opts tr))
       = (if distributables opts \<noteq> [] \<and> truthy (secretKeyPath opts)
             \<and> releaseNotes opts = None \<and> truthy (releaseNotesPath opts)
          then [the (releaseNotesPath opts)] else [])"
    by (rule run_reads)
next
  assume a: "distributables opts \<noteq> [] \<and> truthy (secretKeyPath opts) \<and> releaseNotes opts = None
        \<and> truthy (releaseNotesPath opts) \<and> content_of w (the (releaseNotesPath opts)) = Inl e"
  then have "fst (build w opts (log (default_to False (verbose opts))
                  ''Starting release metadata creation...'' tr))
      = Rejected (''Failed to read release notes from '' @ the (releaseNotesPath opts)
                    @ '': '' @ e)"
    using build_rejected_notes by blast
  with a show "fst (createReleaseMetadata w opts tr)
        = Rejected (''Failed to read release notes from '' @ the (releaseNotesPath opts)
                    @ '': '' @ e)"
    using run_valid(3)[where w=w and opts=opts and tr=tr] by simp
qed

theorem release_notes_witness:
  "m_releaseNotes ((release_manifest []) \<lparr> m_releaseNotes := Some ''notes from NOTES.md'' \<rparr>)
     = Some ''notes from NOTES.md''
   \<and> reads (added [] (createReleaseMetadata good_world
        ((release_options None) \<lparr> releaseNotesPath := Some ''NOTES.md'' \<rparr>) []))
       = [''NOTES.md'']"
proof -
  let ?opts = "(release_options None) \<lparr> releaseNotesPath := Some ''NOTES.md'' \<rparr>"
  let ?m = "(release_manifest []) \<lparr> m_releaseNotes := Some ''notes from NOTES.md'' \<rparr>"
  have run: "Stringify ?m \<in> set (added [] (createReleaseMetadata good_world ?opts []))"
    by code_simp
  have opts: "distributables ?opts \<noteq> []" "truthy (secretKeyPath ?opts)"
    "releaseNotes ?opts = None" "truthy (releaseNotesPath ?opts)"
    "the (releaseNotesPath ?opts) = ''NOTES.md''"
    by (simp_all add: release_options_def sample_options_def truthy_def)
  have resolved: "resolved_notes good_world ?opts = Some ''notes from NOTES.md''"
    by code_simp
  from release_notes[of ?m "[]" good_world ?opts] run opts resolved show ?thesis
    by (simp add: truthy_def)
qed

section \<open>The shape of a run\<close>

lemma run_cases:
  fixes w opts tr
  defines "run \<equiv> createReleaseMetadata w opts tr"
    and "dir \<equiv> default_to ''.'' (outputDir opts)"
    and "mf \<equiv> manifestFile_of opts"
  shows "((\<exists>e. fst run = Rejected e) \<or> fst run = Pending) \<and> steps (added tr run) = []
       \<or> (\<exists>m s. Stringify m \<in> set (added tr run)
             \<and> steps (added tr run)
                 = [Mkdir dir]
                   @ (if mkdir_error w dir = None then [WriteFile mf (stringify w m)] else [])
                   @ s
             \<and> (if mkdir_error w dir = None \<and> writeFile_error w mf (stringify w m) = None
                then sign_shape (the (secretKeyPath opts)) (password opts)
                       (mf # distributables opts) (fst run) s
                     \<and> (\<forall>r. fst run = Resolved r \<longrightarrow> r = mf)
                else s = [] \<and> (\<exists>e. fst run = Rejected e)))"
proof (cases "distributables opts \<noteq> [] \<and> truthy (secretKeyPath opts)")
  case False
  then have inv: "distributables opts = [] \<or> \<not> truthy (secretKeyPath opts)" by blast
  have "\<exists>e. fst run = Rejected e"
    using inv unfolding run_def by (auto simp: createReleaseMetadata_def Let_def)
  moreover have "steps (added tr run) = []"
    unfolding run_def run_invalid[OF inv] by simp
  ultimately show ?thesis by blast
next
  case True
  then have v1: "distributables opts \<noteq> []" and v2: "truthy (secretKeyPath opts)" by blast+
  let ?B = "build w opts (log (default_to False (verbose opts))
                  ''Starting release metadata creation...'' tr)"
  let ?R = "\<lambda>m. persist_and_sign w opts (the (secretKeyPath opts)) m (snd ?B)"
  from run_valid(2)[OF v1 v2, where w=w and tr=tr] obtain pre where
    pre: "list_all is_preparation pre"
    and ad: "added tr run
              = pre @ (case fst ?B of Resolved m \<Rightarrow> added (snd ?B) (?R m)
                       | Rejected e \<Rightarrow> [] | Pending \<Rightarrow> [])"
    unfolding run_def by blast
  have fs: "fst run = (case fst ?B of Resolved m \<Rightarrow> fst (?R m)
                    | Rejected e \<Rightarrow> Rejected e | Pending \<Rightarrow> Pending)"
    unfolding run_def by (rule run_valid(3)[OF v1 v2])
  show ?thesis
  proof (cases "fst ?B")
    case (Rejected e)
    with ad fs steps_preparation[OF pre] show ?thesis by simp
  next
    case Pending
    with ad fs steps_preparation[OF pre] show ?thesis by simp
  next
    case (Resolved m)
    with ad have ad': "added tr run = pre @ added (snd ?B) (?R m)" by simp
    from Resolved fs have fs': "fst run = fst (?R m)" by simp
    have str: "Stringify m \<in> set (added tr run)"
      unfolding ad' using persist_and_sign_stringify by simp
    have st: "steps (added tr run) = steps (added (snd ?B) (?R m))"
      unfolding ad' using steps_preparation[OF pre] by simp
    from persist_and_sign_steps[of "snd ?B" w opts "the (secretKeyPath opts)" m]
    obtain s where
      "steps (added (snd ?B) (?R m))
         = [Mkdir dir]
           @ (if mkdir_error w dir = None then [WriteFile mf (stringify w m)] else [])
           @ s"
      and "if mkdir_error w dir = None \<and> writeFile_error w mf (stringify w m) = None
           then sign_shape (the (secretKeyPath opts)) (password opts)
                  (mf # distributables opts) (fst (?R m)) s
                \<and> (\<forall>r. fst (?R m) = Resolved r \<longrightarrow> r = mf)
           else s = [] \<and> (\<exists>e. fst (?R m) = Rejected e)"
      unfolding dir_def mf_def by blast
    then have "Stringify m \<in> set (added tr run)
             \<and> steps (added tr run)
                 = [Mkdir dir]
                   @ (if mkdir_error w dir = None then [WriteFile mf (stringify w m)] else [])
                   @ s
             \<and> (if mkdir_error w dir = None \<and> writeFile_error w mf (stringify w m) = None
                then sign_shape (the (secretKeyPath opts)) (password opts)
                       (mf # distributables opts) (fst run) s
                     \<and> (\<forall>r. fst run = Resolved r \<longrightarrow> r = mf)
                else s = [] \<and> (\<exists>e. fst run = Rejected e))"
      using str st unfolding fs' by simp
    then show ?thesis by blast
  qed
qed

lemma Close_in_steps: "Close c \<in> set xs \<Longrightarrow> Close c \<in> set (steps xs)"
  by (simp add: steps_def is_step_def)

lemma Close_invocation: "Close c \<notin> set (invocation k p f)"
  by (simp add: invocation_def)

lemma Close_signed_ok: "Close c \<in> set (concat (map (signed_ok k p) fs)) \<Longrightarrow> c = Some 0"
  by (induction fs) (auto simp: signed_ok_def Close_invocation)

lemma Close_sign_failed: "Close c \<in> set (sign_failed k p f c') \<Longrightarrow> c = c'"
  by (auto simp: sign_failed_def Close_invocation)

lemma spawns_simps [simp]:
  "spawns [] = []"
  "spawns (xs @ ys) = spawns xs @ spawns ys"
  "spawns (Spawn c a io # xs) = (a, io) # spawns xs"
  "spawns (Close code # xs) = spawns xs"
  "spawns (StdinWrite s # xs) = spawns xs"
  "spawns (StdinEnd # xs) = spawns xs"
  "spawns (ConsoleError m # xs) = spawns xs"
  "spawns (Mkdir d # xs) = spawns xs"
  "spawns (WriteFile q y # xs) = spawns xs"
  by (simp_all add: spawns_def)

lemma spawns_steps: "spawns (steps xs) = spawns xs"
  by (induction xs) (auto simp: spawns_def steps_def is_step_def split: event.splits)

lemma stdin_events_steps: "stdin_events (steps xs) = stdin_events xs"
  by (induction xs) (auto simp: stdin_events_def steps_def is_step_def split: event.splits)

lemma spawns_invocation:
  "spawns (invocation k p f) = [([''-S'', ''-s'', k, ''-m'', f], strategy p)]"
  by (simp add: invocation_def strategy_def)

lemma spawns_signed_ok:
  "spawns (concat (map (signed_ok k p) fs)) = map (\<lambda>f. ([''-S'', ''-s'', k, ''-m'', f], strategy p)) fs"
  by (induction fs) (simp_all add: signed_ok_def spawns_invocation)

lemma spawns_sign_failed:
  "spawns (sign_failed k p f c) = [([''-S'', ''-s'', k, ''-m'', f], strategy p)]"
  by (simp add: sign_failed_def spawns_invocation)

section \<open>A successful run\<close>

text \<open>
  C5. When \<open>createReleaseMetadata\<close> resolves, its value is the path of the manifest file,
  \<^verbatim>\<open>latest-<platform>.yml\<close> joined to the output directory. The steps of the run are, in
  this order: the output directory is created (recursively, so an existing one is
  accepted), the serialised manifest object is written to the manifest file, the manifest
  file is signed, and then each distributable is signed, in input order, each child
  closing with code 0 before the next is spawned. There is one signing invocation per
  file, manifest first, all with the same credential strategy.
\<close>

theorem successful_run:
  assumes "fst (createReleaseMetadata w opts tr) = Resolved r"
  shows "r = path_join (default_to ''.'' (outputDir opts))
               (''latest-'' @ platform_name (default_to Mac (platform opts)) @ ''.yml'')
       \<and> (\<exists>m. Stringify m \<in> set (added tr (createReleaseMetadata w opts tr))
             \<and> steps (added tr (createReleaseMetadata w opts tr))
                 = [Mkdir (default_to ''.'' (outputDir opts)), WriteFile r (stringify w m)]
                   @ concat (map (signed_ok (the (secretKeyPath opts)) (password opts))
                               (r # distributables opts)))
       \<and> spawns (added tr (createReleaseMetadata w opts tr))
           = map (\<lambda>f. ([''-S'', ''-s'', the (secretKeyPath opts), ''-m'', f],
                       strategy (password opts)))
               (r # distributables opts)"
proof -
  let ?run = "createReleaseMetadata w opts tr"
  let ?dir = "default_to ''.'' (outputDir opts)"
  let ?mf = "manifestFile_of opts"
  let ?k = "the (secretKeyPath opts)"
  from run_cases[of w opts tr] assms obtain m s where
    str: "Stringify m \<in> set (added tr ?run)"
    and st: "steps (added tr ?run)
                 = [Mkdir ?dir]
                   @ (if mkdir_error w ?dir = None then [WriteFile ?mf (stringify w m)] else [])
                   @ s"
    and sh: "if mkdir_error w ?dir = None \<and> writeFile_error w ?mf (stringify w m) = None
                then sign_shape ?k (password opts) (?mf # distributables opts) (fst ?run) s
                     \<and> (\<forall>r. fst ?run = Resolved r \<longrightarrow> r = ?mf)
                else s = [] \<and> (\<exists>e. fst ?run = Rejected e)"
    by auto
  from sh assms have ok: "mkdir_error w ?dir = None"
    and shape: "sign_shape ?k (password opts) (?mf # distributables opts) (Resolved r) s"
    and r: "r = ?mf"
    by (auto split: if_splits)
  from shape have s: "s = concat (map (signed_ok ?k (password opts)) (?mf # distributables opts))"
    by (simp add: sign_shape_def)
  have steps_eq: "steps (added tr ?run)
      = [Mkdir ?dir, WriteFile r (stringify w m)]
        @ concat (map (signed_ok ?k (password opts)) (r # distributables opts))"
    using st ok s r by simp
  have "spawns (added tr ?run) = spawns (steps (added tr ?run))" by (simp add: spawns_steps)
  also have "\<dots> = map (\<lambda>f. ([''-S'', ''-s'', ?k, ''-m'', f], strategy (password opts)))
                     (r # distributables opts)"
    unfolding steps_eq using spawns_signed_ok[of ?k "password opts" "r # distributables opts"]
    by simp
  finally show ?thesis using r str steps_eq by (auto simp: manifestFile_of_def)
qed

theorem successful_run_witness:
  "fst (createReleaseMetadata good_world
          ((sample_options [''dist/App-1.0.0.dmg'']) \<lparr> password := Some ''passphrase'' \<rparr>) [])
     = Resolved ''latest-mac.yml''
   \<and> spawns (added [] (createReleaseMetadata good_world
          ((sample_options [''dist/App-1.0.0.dmg'']) \<lparr> password := Some ''passphrase'' \<rparr>) []))
       = [([''-S'', ''-s'', ''secret.key'', ''-m'', ''latest-mac.yml''], [Pipe, Inherit, Inherit]),
          ([''-S'', ''-s'', ''secret.key'', ''-m'', ''dist/App-1.0.0.dmg''], [Pipe, Inherit, Inherit])]"
proof -
  let ?opts = "(sample_options [''dist/App-1.0.0.dmg'']) \<lparr> password := Some ''passphrase'' \<rparr>"
  have run: "fst (createReleaseMetadata good_world ?opts []) = Resolved ''latest-mac.yml''"
    by code_simp
  have opts: "the (secretKeyPath ?opts) = ''secret.key''" "password ?opts = Some ''passphrase''"
    "distributables ?opts = [''dist/App-1.0.0.dmg'']"
    by (simp_all add: sample_options_def)
  from successful_run[OF run] run opts show ?thesis
    by (simp add: strategy_def truthy_def)
qed

section \<open>A failing signer\<close>

text \<open>
  C2, as amended. When in a run some signer process closes with a status other than 0
  (or is ended by a signal), \<open>createReleaseMetadata\<close> is rejected, with the text
  \<^verbatim>\<open>Failed to sign file with minisign: minisign process exited with code <status>\<close>,
  which carries the status and not the name of the file. The failing invocation is the
  last one of the run: the files before it (the manifest first, then the distributables
  in input order) were signed, and no invocation is made for any file after it. The base
  name of the file that failed is printed on the error console, in the message
  \<^verbatim>\<open>Error signing file: <name>\<close>, right after the child has closed.
\<close>

theorem failed_signing:
  assumes "Close c \<in> set (added tr (createReleaseMetadata w opts tr))" and "c \<noteq> Some 0"
  shows "fst (createReleaseMetadata w opts tr)
           = Rejected (''Failed to sign file with minisign: minisign process exited with code ''
                       @ String_code (truthy (password opts)) c)
       \<and> (\<exists>m j. j < length (manifestFile_of opts # distributables opts)
             \<and> steps (added tr (createReleaseMetadata w opts tr))
                 = [Mkdir (default_to ''.'' (outputDir opts)),
                    WriteFile (manifestFile_of opts) (stringify w m)]
                   @ concat (map (signed_ok (the (secretKeyPath opts)) (password opts))
                               (take j (manifestFile_of opts # distributables opts)))
                   @ invocation (the (secretKeyPath opts)) (password opts)
                       ((manifestFile_of opts # distributables opts) ! j)
                   @ [Close c,
                      ConsoleError (''Error signing file: ''
                        @ basename ((manifestFile_of opts # distributables opts) ! j)),
                      ConsoleError (''minisign process exited with code ''
                        @ String_code (truthy (password opts)) c)])"
proof -
  let ?run = "createReleaseMetadata w opts tr"
  let ?dir = "default_to ''.'' (outputDir opts)"
  let ?mf = "manifestFile_of opts"
  let ?k = "the (secretKeyPath opts)"
  let ?p = "password opts"
  let ?fs = "?mf # distributables opts"
  have cl: "Close c \<in> set (steps (added tr ?run))" by (rule Close_in_steps[OF assms(1)])
  then have "steps (added tr ?run) \<noteq> []" by auto
  with run_cases[of w opts tr] obtain m s where
    st: "steps (added tr ?run)
                 = [Mkdir ?dir]
                   @ (if mkdir_error w ?dir = None then [WriteFile ?mf (stringify w m)] else [])
                   @ s"
    and sh: "if mkdir_error w ?dir = None \<and> writeFile_error w ?mf (stringify w m) = None
                then sign_shape ?k ?p ?fs (fst ?run) s
                     \<and> (\<forall>r. fst ?run = Resolved r \<longrightarrow> r = ?mf)
                else s = [] \<and> (\<exists>e. fst ?run = Rejected e)"
    by auto
  from cl st have cs: "Close c \<in> set s" by (auto split: if_splits)
  with sh have ok: "mkdir_error w ?dir = None"
    and shape: "sign_shape ?k ?p ?fs (fst ?run) s"
    by (auto split: if_splits)
  show ?thesis
  proof (cases "fst ?run")
    case (Resolved r)
    with shape have "s = concat (map (signed_ok ?k ?p) ?fs)" by (simp add: sign_shape_def)
    with cs Close_signed_ok[of c ?k ?p ?fs] assms(2) show ?thesis by simp
  next
    case Pending
    with shape obtain j where "s = concat (map (signed_ok ?k ?p) (take j ?fs))
                                   @ invocation ?k ?p (?fs ! j)"
      by (auto simp: sign_shape_def)
    with cs Close_signed_ok[of c ?k ?p "take j ?fs"] Close_invocation[of c ?k ?p "?fs ! j"]
      assms(2) show ?thesis by auto
  next
    case (Rejected msg)
    with shape obtain j c' where j: "j < length ?fs"
      and s: "s = concat (map (signed_ok ?k ?p) (take j ?fs)) @ sign_failed ?k ?p (?fs ! j) c'"
      and msg: "msg = sign_error_text ?p c'"
      by (auto simp: sign_shape_def)
    from cs s Close_signed_ok[of c ?k ?p "take j ?fs"] Close_sign_failed[of c ?k ?p "?fs ! j" c']
      assms(2) have c: "c' = c" by auto
    have "steps (added tr ?run)
        = [Mkdir ?dir, WriteFile ?mf (stringify w m)]
          @ concat (map (signed_ok ?k ?p) (take j ?fs))
          @ invocation ?k ?p (?fs ! j)
          @ [Close c, ConsoleError (''Error signing file: '' @ basename (?fs ! j)),
             ConsoleError (''minisign process exited with code '' @ String_code (truthy ?p) c)]"
      unfolding st s c using ok by (simp add: sign_failed_def)
    with j have "\<exists>m j. j < length ?fs
             \<and> steps (added tr ?run)
                 = [Mkdir ?dir, WriteFile ?mf (stringify w m)]
                   @ concat (map (signed_ok ?k ?p) (take j ?fs))
                   @ invocation ?k ?p (?fs ! j)
                   @ [Close c, ConsoleError (''Error signing file: '' @ basename (?fs ! j)),
                      ConsoleError (''minisign process exited with code ''
                        @ String_code (truthy ?p) c)]"
      by blast
    moreover have "fst ?run
        = Rejected (''Failed to sign file with minisign: minisign process exited with code ''
                       @ String_code (truthy ?p) c)"
      using Rejected msg c by (simp add: sign_error_text_def)
    ultimately show ?thesis by blast
  qed
qed

theorem failed_signing_witness:
  "fst (createReleaseMetadata (sample_world 2 ''Wrong password for that key'' (Some 1))
          (sample_options [''dist/App-1.0.0.dmg'', ''dist/App-1.0.0.zip'']) [])
     = Rejected ''Failed to sign file with minisign: minisign process exited with code 1''
   \<and> spawns (added [] (createReleaseMetadata
          (sample_world 2 ''Wrong password for that key'' (Some 1))
          (sample_options [''dist/App-1.0.0.dmg'', ''dist/App-1.0.0.zip'']) []))
       = [([''-S'', ''-s'', ''secret.key'', ''-m'', ''latest-mac.yml''], [Inherit, Inherit, Inherit]),
          ([''-S'', ''-s'', ''secret.key'', ''-m'', ''dist/App-1.0.0.dmg''],
           [Inherit, Inherit, Inherit])]"
proof -
  let ?w = "sample_world 2 ''Wrong password for that key'' (Some 1)"
  let ?opts = "sample_options [''dist/App-1.0.0.dmg'', ''dist/App-1.0.0.zip'']"
  have closed: "Close (Some 1) \<in> set (added [] (createReleaseMetadata ?w ?opts []))"
    by code_simp
  have code: "String_code (truthy (password ?opts)) (Some 1) = ''1''"
    by code_simp
  have sp: "spawns (added [] (createReleaseMetadata ?w ?opts []))
       = [([''-S'', ''-s'', ''secret.key'', ''-m'', ''latest-mac.yml''], [Inherit, Inherit, Inherit]),
          ([''-S'', ''-s'', ''secret.key'', ''-m'', ''dist/App-1.0.0.dmg''],
           [Inherit, Inherit, Inherit])]"
    by code_simp
  from failed_signing[OF closed] code sp show ?thesis by simp
qed

text \<open>
  C2 as stated fails: the text of the rejection does not tell which file was being signed.
  A run whose first signer process (for the manifest file) exits with 1 and a run whose
  second one (for the first distributable) exits with 1 are rejected with the same text,
  and neither file name occurs in it.
\<close>

theorem failed_signing_counterexample:
  "fst (createReleaseMetadata (sample_world 1 [] (Some 1))
          (sample_options [''dist/App-1.0.0.dmg'']) [])
     = Rejected ''Failed to sign file with minisign: minisign process exited with code 1''
   \<and> fst (createReleaseMetadata (sample_world 2 [] (Some 1))
          (sample_options [''dist/App-1.0.0.dmg'']) [])
     = Rejected ''Failed to sign file with minisign: minisign process exited with code 1''
   \<and> last (spawns (added [] (createReleaseMetadata (sample_world 1 [] (Some 1))
          (sample_options [''dist/App-1.0.0.dmg'']) [])))
     = ([''-S'', ''-s'', ''secret.key'', ''-m'', ''latest-mac.yml''], [Inherit, Inherit, Inherit])
   \<and> last (spawns (added [] (createReleaseMetadata (sample_world 2 [] (Some 1))
          (sample_options [''dist/App-1.0.0.dmg'']) [])))
     = ([''-S'', ''-s'', ''secret.key'', ''-m'', ''dist/App-1.0.0.dmg''], [Inherit, Inherit, Inherit])
   \<and> \<not> test False (lit ''App-1.0.0.dmg'')
         ''Failed to sign file with minisign: minisign process exited with code 1''
   \<and> \<not> test False (lit ''latest-mac.yml'')
         ''Failed to sign file with minisign: minisign process exited with code 1''"
  by code_simp

section \<open>The credential strategy\<close>

lemma signFile_empty_password: "signFile w f k (Some []) tr = signFile w f k None tr"
  by (simp add: signFile_def signFile_try_def truthy_def)

lemma sign_each_empty_password:
  "sign_each w v k (Some []) n i fs tr = sign_each w v k None n i fs tr"
  by (induction fs arbitrary: i tr) (simp_all add: signFile_empty_password)

lemma build_password: "build w (opts \<lparr> password := x \<rparr>) tr = build w opts tr"
  by (simp add: build_def manifest_of_def cong: option.case_cong)

lemma persist_and_sign_empty_password:
  "persist_and_sign w (opts \<lparr> password := Some [] \<rparr>) k m tr
   = persist_and_sign w (opts \<lparr> password := None \<rparr>) k m tr"
  by (simp add: persist_and_sign_def manifestFile_of_def signFile_empty_password
      sign_each_empty_password truthy_def cong: option.case_cong)

lemma run_empty_password:
  "createReleaseMetadata w (opts \<lparr> password := Some [] \<rparr>) tr
   = createReleaseMetadata w (opts \<lparr> password := None \<rparr>) tr"
  by (simp add: createReleaseMetadata_def build_password persist_and_sign_empty_password
      cong: if_cong)

lemma stdin_events_simps [simp]:
  "stdin_events [] = []"
  "stdin_events (xs @ ys) = stdin_events xs @ stdin_events ys"
  "stdin_events (Spawn c a io # xs) = stdin_events xs"
  "stdin_events (Close code # xs) = stdin_events xs"
  "stdin_events (ConsoleError m # xs) = stdin_events xs"
  "stdin_events (Mkdir d # xs) = stdin_events xs"
  "stdin_events (WriteFile q y # xs) = stdin_events xs"
  by (simp_all add: stdin_events_def)

lemma stdin_signed_ok:
  "\<not> truthy p \<Longrightarrow> stdin_events (concat (map (signed_ok k p) fs)) = []"
  by (induction fs) (simp_all add: signed_ok_def invocation_def)

lemma sign_shape_strategy:
  assumes "sign_shape k p fs r s"
  shows "list_all (\<lambda>x. snd x = strategy p) (spawns s)"
    and "\<not> truthy p \<Longrightarrow> stdin_events s = []"
proof -
  show "list_all (\<lambda>x. snd x = strategy p) (spawns s)"
    using assms
    by (cases r)
      (auto simp: sign_shape_def spawns_signed_ok spawns_sign_failed spawns_invocation
        list_all_iff)
  show "stdin_events s = []" if "\<not> truthy p"
    using assms that
    by (cases r)
      (auto simp: sign_shape_def stdin_signed_ok sign_failed_def invocation_def)
qed

lemma run_strategy:
  "list_all (\<lambda>x. snd x = strategy (password opts))
     (spawns (added tr (createReleaseMetadata w opts tr)))"
  "\<not> truthy (password opts) \<Longrightarrow> stdin_events (added tr (createReleaseMetadata w opts tr)) = []"
proof -
  let ?run = "createReleaseMetadata w opts tr"
  let ?dir = "default_to ''.'' (outputDir opts)"
  let ?mf = "manifestFile_of opts"
  have "list_all (\<lambda>x. snd x = strategy (password opts)) (spawns (steps (added tr ?run)))
        \<and> (\<not> truthy (password opts) \<longrightarrow> stdin_events (steps (added tr ?run)) = [])"
  proof (cases "steps (added tr ?run) = []")
    case True
    then show ?thesis by simp
  next
    case False
    with run_cases[of w opts tr] obtain m s where
      st: "steps (added tr ?run)
                 = [Mkdir ?dir]
                   @ (if mkdir_error w ?dir = None then [WriteFile ?mf (stringify w m)] else [])
                   @ s"
      and sh: "if mkdir_error w ?dir = None \<and> writeFile_error w ?mf (stringify w m) = None
                then sign_shape (the (secretKeyPath opts)) (password opts)
                       (?mf # distributables opts) (fst ?run) s
                     \<and> (\<forall>r. fst ?run = Resolved r \<longrightarrow> r = ?mf)
                else s = [] \<and> (\<exists>e. fst ?run = Rejected e)"
      by auto
    have "list_all (\<lambda>x. snd x = strategy (password opts)) (spawns s)
        \<and> (\<not> truthy (password opts) \<longrightarrow> stdin_events s = [])"
      using sh sign_shape_strategy by (auto split: if_splits)
    then show ?thesis unfolding st by simp
  qed
  then show "list_all (\<lambda>x. snd x = strategy (password opts)) (spawns (added tr ?run))"
    and "\<not> truthy (password opts) \<Longrightarrow> stdin_events (added tr ?run) = []"
    by (simp_all add: spawns_steps stdin_events_steps)
qed

text \<open>
  C10. A run with the empty string as password is the same run, event for event, as the
  run with no password. Whenever the password is absent or empty, every signing
  invocation inherits all three standard streams and nothing is written to, or closed
  on, a child's standard input. Whenever the password is a non-empty string, every
  signing invocation has its standard input piped: the explicit strategy is selected
  then, and only then.
\<close>

theorem empty_password_is_interactive:
  "createReleaseMetadata w (opts \<lparr> password := Some [] \<rparr>) tr
     = createReleaseMetadata w (opts \<lparr> password := None \<rparr>) tr
   \<and> (password opts = None \<or> password opts = Some [] \<longrightarrow>
        list_all (\<lambda>x. snd x = [Inherit, Inherit, Inherit])
          (spawns (added tr (createReleaseMetadata w opts tr)))
        \<and> stdin_events (added tr (createReleaseMetadata w opts tr)) = [])
   \<and> (password opts \<noteq> None \<and> password opts \<noteq> Some [] \<longrightarrow>
        list_all (\<lambda>x. snd x = [Pipe, Inherit, Inherit])
          (spawns (added tr (createReleaseMetadata w opts tr))))"
proof (intro conjI impI)
  show "createReleaseMetadata w (opts \<lparr> password := Some [] \<rparr>) tr
     = createReleaseMetadata w (opts \<lparr> password := None \<rparr>) tr"
    by (rule run_empty_password)
next
  assume "password opts = None \<or> password opts = Some []"
  then have nt: "\<not> truthy (password opts)" by (auto simp: truthy_def)
  then have "strategy (password opts) = [Inherit, Inherit, Inherit]" by (simp add: strategy_def)
  with run_strategy(1)[of opts tr w]
  show "list_all (\<lambda>x. snd x = [Inherit, Inherit, Inherit])
          (spawns (added tr (createReleaseMetadata w opts tr)))" by simp
  from run_strategy(2)[OF nt]
  show "stdin_events (added tr (createReleaseMetadata w opts tr)) = []" .
next
  assume "password opts \<noteq> None \<and> password opts \<noteq> Some []"
  then have "truthy (password opts)" by (auto simp: truthy_def)
  then have "strategy (password opts) = [Pipe, Inherit, Inherit]" by (simp add: strategy_def)
  with run_strategy(1)[of opts tr w]
  show "list_all (\<lambda>x. snd x = [Pipe, Inherit, Inherit])
          (spawns (added tr (createReleaseMetadata w opts tr)))" by simp
qed

theorem empty_password_is_interactive_witness:
  "spawns (added [] (createReleaseMetadata good_world
     ((sample_options [''dist/App-1.0.0.dmg'']) \<lparr> password := Some [] \<rparr>) []))
   = [([''-S'', ''-s'', ''secret.key'', ''-m'', ''latest-mac.yml''], [Inherit, Inherit, Inherit]),
      ([''-S'', ''-s'', ''secret.key'', ''-m'', ''dist/App-1.0.0.dmg''], [Inherit, Inherit, Inherit])]
   \<and> stdin_events (added [] (createReleaseMetadata good_world
        ((sample_options [''dist/App-1.0.0.dmg'']) \<lparr> password := Some [] \<rparr>) [])) = []
   \<and> createReleaseMetadata good_world
        ((sample_options [''dist/App-1.0.0.dmg'']) \<lparr> password := Some [] \<rparr>) []
     = createReleaseMetadata good_world
        ((sample_options [''dist/App-1.0.0.dmg'']) \<lparr> password := None \<rparr>) []"
proof -
  let ?opts = "(sample_options [''dist/App-1.0.0.dmg'']) \<lparr> password := Some [] \<rparr>"
  have pw: "password ?opts = None \<or> password ?opts = Some []" by simp
  have sp: "spawns (added [] (createReleaseMetadata good_world ?opts []))
   = [([''-S'', ''-s'', ''secret.key'', ''-m'', ''latest-mac.yml''], [Inherit, Inherit, Inherit]),
      ([''-S'', ''-s'', ''secret.key'', ''-m'', ''dist/App-1.0.0.dmg''], [Inherit, Inherit, Inherit])]"
    by code_simp
  note t = empty_password_is_interactive[of good_world ?opts "[]"]
  have same: "createReleaseMetadata good_world ?opts []
     = createReleaseMetadata good_world
        ((sample_options [''dist/App-1.0.0.dmg'']) \<lparr> password := None \<rparr>) []"
    using t by simp
  have quiet: "stdin_events (added [] (createReleaseMetadata good_world ?opts [])) = []"
    using t pw by blast
  show ?thesis by (rule conjI[OF sp conjI[OF quiet same]])
qed

section \<open>One signing invocation\<close>

text \<open>
  C3, as amended. \<open>signFile\<close> spawns the signer once. With a non-empty password the child's
  standard input is a pipe (its output and error stream are inherited), the password and
  a newline are written to it, it is closed, and then the child's \<^verbatim>\<open>close\<close> event is awaited;
  with no password, or the empty string, none of this happens on the child's input. Under
  either strategy the outcome follows the exit status: status 0 resolves; any other
  status, or a termination by signal, rejects with
  \<^verbatim>\<open>Failed to sign file with minisign: minisign process exited with code <status>\<close>
  (\<^verbatim>\<open>null\<close> or \<^verbatim>\<open>unknown\<close> for a signal); a child that never closes leaves the promise
  pending. What the child prints is not captured: it reaches the streams the child
  inherits, and the failure carries the status only.
\<close>

theorem signFile_protocol:
  "steps (added tr (signFile w f k p tr))
     = invocation k p f
       @ (case child w (waiting tr f k p) of
            None \<Rightarrow> []
          | Some c \<Rightarrow>
              Close (exit_code c)
              # (if exit_code c = Some 0 then []
                 else [ConsoleError (''Error signing file: '' @ basename f),
                       ConsoleError (''minisign process exited with code ''
                                     @ String_code (truthy p) (exit_code c))]))
   \<and> fst (signFile w f k p tr)
       = (case child w (waiting tr f k p) of
            None \<Rightarrow> Pending
          | Some c \<Rightarrow>
              if exit_code c = Some 0 then Resolved ()
              else Rejected (''Failed to sign file with minisign: minisign process exited with code ''
                             @ String_code (truthy p) (exit_code c)))
   \<and> (p \<noteq> None \<and> p \<noteq> Some [] \<longrightarrow>
        invocation k p f
        = [Spawn ''minisign'' [''-S'', ''-s'', k, ''-m'', f] [Pipe, Inherit, Inherit],
           StdinWrite (the p @ [CHR 0x0A]),
           StdinEnd])
   \<and> (p = None \<or> p = Some [] \<longrightarrow>
        invocation k p f
        = [Spawn ''minisign'' [''-S'', ''-s'', k, ''-m'', f] [Inherit, Inherit, Inherit]])
   \<and> (\<forall>c. child w (waiting tr f k p) = Some c \<longrightarrow>
          ChildOutput (printed c) \<in> set (added tr (signFile w f k p tr)))"
proof (intro conjI impI allI)
  show "steps (added tr (signFile w f k p tr))
     = invocation k p f
       @ (case child w (waiting tr f k p) of
            None \<Rightarrow> []
          | Some c \<Rightarrow>
              Close (exit_code c)
              # (if exit_code c = Some 0 then []
                 else [ConsoleError (''Error signing file: '' @ basename f),
                       ConsoleError (''minisign process exited with code ''
                                     @ String_code (truthy p) (exit_code c))]))"
    by (simp add: signFile_eq waiting_append[of tr] split: option.splits)
  show "fst (signFile w f k p tr)
       = (case child w (waiting tr f k p) of
            None \<Rightarrow> Pending
          | Some c \<Rightarrow>
              if exit_code c = Some 0 then Resolved ()
              else Rejected (''Failed to sign file with minisign: minisign process exited with code ''
                             @ String_code (truthy p) (exit_code c)))"
    by (simp add: signFile_eq sign_error_text_def split: option.splits)
  show "invocation k p f
        = [Spawn ''minisign'' [''-S'', ''-s'', k, ''-m'', f] [Pipe, Inherit, Inherit],
           StdinWrite (the p @ [CHR 0x0A]),
           StdinEnd]"
    if "p \<noteq> None \<and> p \<noteq> Some []"
    using that by (auto simp: invocation_def truthy_def)
  show "invocation k p f
        = [Spawn ''minisign'' [''-S'', ''-s'', k, ''-m'', f] [Inherit, Inherit, Inherit]]"
    if "p = None \<or> p = Some []"
    using that by (auto simp: invocation_def truthy_def)
  show "ChildOutput (printed c) \<in> set (added tr (signFile w f k p tr))"
    if "child w (waiting tr f k p) = Some c" for c
    using that by (simp add: signFile_eq waiting_append[of tr])
qed

theorem signFile_protocol_witness:
  "steps (added [] (signFile (sample_world 1 ''Wrong password for that key'' (Some 1))
                      ''dist/App-1.0.0.dmg'' ''secret.key'' (Some ''passphrase'') []))
     = [Spawn ''minisign'' [''-S'', ''-s'', ''secret.key'', ''-m'', ''dist/App-1.0.0.dmg'']
          [Pipe, Inherit, Inherit],
        StdinWrite (''passphrase'' @ [CHR 0x0A]),
        StdinEnd,
        Close (Some 1),
        ConsoleError ''Error signing file: App-1.0.0.dmg'',
        ConsoleError ''minisign process exited with code 1'']
   \<and> fst (signFile (sample_world 1 ''Wrong password for that key'' (Some 1))
             ''dist/App-1.0.0.dmg'' ''secret.key'' (Some ''passphrase'') [])
       = Rejected ''Failed to sign file with minisign: minisign process exited with code 1''
   \<and> ChildOutput ''Wrong password for that key''
       \<in> set (added [] (signFile (sample_world 1 ''Wrong password for that key'' (Some 1))
                           ''dist/App-1.0.0.dmg'' ''secret.key'' (Some ''passphrase'') []))"
proof -
  let ?w = "sample_world 1 ''Wrong password for that key'' (Some 1)"
  let ?p = "Some ''passphrase''"
  have c: "child ?w (waiting [] ''dist/App-1.0.0.dmg'' ''secret.key'' ?p)
           = Some \<lparr> printed = ''Wrong password for that key'', exit_code = Some 1 \<rparr>"
    by code_simp
  have p: "?p \<noteq> None \<and> ?p \<noteq> Some []" by simp
  have ev: "String_code (truthy ?p) (Some 1) = ''1''"
    "basename ''dist/App-1.0.0.dmg'' = ''App-1.0.0.dmg''"
    by code_simp+
  note t = signFile_protocol[of "[]" ?w "''dist/App-1.0.0.dmg''" "''secret.key''" ?p,
      unfolded c]
  from t p show ?thesis by (simp add: ev)
qed

text \<open>
  C3 as stated fails at the empty password, which is not absent and still selects the
  interactive strategy (nothing is written to the child), and it fails for the
  diagnostic text: the child's own message is not part of the failure.
\<close>

theorem signFile_counterexample:
  "signFile (sample_world 1 ''Wrong password for that key'' (Some 1))
     ''dist/App-1.0.0.dmg'' ''secret.key'' (Some []) []
   = (Rejected ''Failed to sign file with minisign: minisign process exited with code 1'',
      [ConsoleLog ''Signing file: App-1.0.0.dmg'',
       ConsoleLog ''You may need to enter password in the terminal if prompted'',
       Spawn ''minisign'' [''-S'', ''-s'', ''secret.key'', ''-m'', ''dist/App-1.0.0.dmg'']
         [Inherit, Inherit, Inherit],
       ChildOutput ''Wrong password for that key'',
       Close (Some 1),
       ConsoleError ''Error signing file: App-1.0.0.dmg'',
       ConsoleError ''minisign process exited with code 1''])
   \<and> \<not> test False (lit ''Wrong password for that key'')
         ''Failed to sign file with minisign: minisign process exited with code 1''"
  by code_simp

section \<open>The matcher and what an expression matches\<close>

lemma plus_cls_iff:
  "r \<in> set (plus_cls p s) \<longleftrightarrow> (\<exists>u. s = u @ r \<and> u \<noteq> [] \<and> list_all p u)"
proof (induction s)
  case Nil
  show ?case by simp
next
  case (Cons x xs)
  show ?case
  proof (cases "p x")
    case False
    then show ?thesis by (auto simp: Cons_eq_append_conv)
  next
    case True
    have "r \<in> set (plus_cls p (x # xs)) \<longleftrightarrow> r \<in> set (plus_cls p xs) \<or> r = xs"
      using True by auto
    also have "\<dots> \<longleftrightarrow> (\<exists>u. xs = u @ r \<and> u \<noteq> [] \<and> list_all p u) \<or> r = xs"
      using Cons.IH by simp
    also have "\<dots> \<longleftrightarrow> (\<exists>u. x # xs = u @ r \<and> u \<noteq> [] \<and> list_all p u)"
    proof
      assume "(\<exists>u. xs = u @ r \<and> u \<noteq> [] \<and> list_all p u) \<or> r = xs"
      then show "\<exists>u. x # xs = u @ r \<and> u \<noteq> [] \<and> list_all p u"
      proof
        assume "\<exists>u. xs = u @ r \<and> u \<noteq> [] \<and> list_all p u"
        then obtain u where "xs = u @ r" "list_all p u" by blast
        then have "x # xs = (x # u) @ r \<and> x # u \<noteq> [] \<and> list_all p (x # u)"
          using True by simp
        then show ?thesis by blast
      next
        assume "r = xs"
        then have "x # xs = [x] @ r \<and> [x] \<noteq> [] \<and> list_all p [x]" using True by simp
        then show ?thesis by blast
      qed
    next
      assume "\<exists>u. x # xs = u @ r \<and> u \<noteq> [] \<and> list_all p u"
      then obtain u where u: "x # xs = u @ r" "u \<noteq> []" "list_all p u" by blast
      then obtain u' where u': "u = x # u'" "xs = u' @ r" by (cases u) auto
      show "(\<exists>u. xs = u @ r \<and> u \<noteq> [] \<and> list_all p u) \<or> r = xs"
      proof (cases "u' = []")
        case True
        with u' show ?thesis by simp
      next
        case False
        with u u' have "xs = u' @ r \<and> u' \<noteq> [] \<and> list_all p u'" by simp
        then show ?thesis by blast
      qed
    qed
    finally show ?thesis .
  qed
qed

lemma ms_iff: "r \<in> set (ms ci e s) \<longleftrightarrow> (\<exists>u. s = u @ r \<and> matches ci e u r)"
proof (induction e arbitrary: s r)
  case (Lit c)
  show ?case by (cases s) auto
next
  case (PlusCls p)
  show ?case by (simp add: plus_cls_iff)
next
  case (Seq a b)
  show ?case
  proof
    assume "r \<in> set (ms ci (Seq a b) s)"
    then obtain s1 where s1: "s1 \<in> set (ms ci a s)" and r: "r \<in> set (ms ci b s1)" by auto
    from s1 Seq.IH(1) obtain u1 where u1: "s = u1 @ s1" "matches ci a u1 s1" by blast
    from r Seq.IH(2) obtain u2 where u2: "s1 = u2 @ r" "matches ci b u2 r" by blast
    from u1 u2 have "s = (u1 @ u2) @ r \<and> matches ci (Seq a b) (u1 @ u2) r" by auto
    then show "\<exists>u. s = u @ r \<and> matches ci (Seq a b) u r" by blast
  next
    assume "\<exists>u. s = u @ r \<and> matches ci (Seq a b) u r"
    then obtain u1 u2 where s: "s = (u1 @ u2) @ r"
      and a: "matches ci a u1 (u2 @ r)" and b: "matches ci b u2 r" by auto
    from a s Seq.IH(1)[of "u2 @ r" s] have "u2 @ r \<in> set (ms ci a s)" by auto
    moreover from b Seq.IH(2)[of r "u2 @ r"] have "r \<in> set (ms ci b (u2 @ r))" by auto
    ultimately show "r \<in> set (ms ci (Seq a b) s)" by auto
  qed
next
  case (Alt a b)
  then show ?case by auto
next
  case (Opt a)
  then show ?case by auto
next
  case Eol
  show ?case by auto
next
  case Eps
  show ?case by auto
qed

lemma ms_suffix: "r \<in> set (ms ci e s) \<Longrightarrow> \<exists>u. s = u @ r"
  using ms_iff by blast

lemma match_here_iff:
  "(s1, r) \<in> set (match_here ci a b s)
   \<longleftrightarrow> (\<exists>u g. s = u @ s1 \<and> s1 = g @ r \<and> matches ci a u s1 \<and> matches ci b g r)"
proof -
  have "(s1, r) \<in> set (match_here ci a b s) \<longleftrightarrow> s1 \<in> set (ms ci a s) \<and> r \<in> set (ms ci b s1)"
    by (auto simp: match_here_def)
  also have "\<dots> \<longleftrightarrow> (\<exists>u. s = u @ s1 \<and> matches ci a u s1) \<and> (\<exists>g. s1 = g @ r \<and> matches ci b g r)"
    by (simp add: ms_iff)
  also have "\<dots> \<longleftrightarrow> (\<exists>u g. s = u @ s1 \<and> s1 = g @ r \<and> matches ci a u s1 \<and> matches ci b g r)"
    by blast
  finally show ?thesis .
qed

lemma match_here_Eps: "match_here ci a Eps s = map (\<lambda>s1. (s1, s1)) (ms ci a s)"
  by (simp add: match_here_def)

section \<open>The leftmost match\<close>

declare exec_from.simps [simp del]

lemma exec_from_hit:
  "match_here ci a b s = (s1, r) # rest \<Longrightarrow>
   exec_from ci a b pre s
   = Some (pre, take (length s - length s1) s, take (length s1 - length r) s1, r)"
  by (subst exec_from.simps) simp

lemma exec_from_Nil_miss: "match_here ci a b [] = [] \<Longrightarrow> exec_from ci a b pre [] = None"
  by (subst exec_from.simps) simp

lemma exec_from_Cons_miss:
  "match_here ci a b (x # xs) = [] \<Longrightarrow>
   exec_from ci a b pre (x # xs) = exec_from ci a b (pre @ [x]) xs"
  by (subst exec_from.simps) simp

lemma exec_from_None:
  "exec_from ci a b pre s = None \<longleftrightarrow> (\<forall>i\<le>length s. match_here ci a b (drop i s) = [])"
proof (induction s arbitrary: pre)
  case Nil
  show ?case
  proof (cases "match_here ci a b []")
    case Nil
    then show ?thesis by (simp add: exec_from_Nil_miss)
  next
    case (Cons m rest)
    obtain s1 r where "m = (s1, r)" by (cases m)
    with Cons show ?thesis by (simp add: exec_from_hit)
  qed
next
  case (Cons x xs)
  show ?case
  proof (cases "match_here ci a b (x # xs)")
    case (Cons m rest)
    obtain s1 r where "m = (s1, r)" by (cases m)
    with Cons have "exec_from ci a b pre (x # xs) \<noteq> None" by (simp add: exec_from_hit)
    moreover have "match_here ci a b (drop 0 (x # xs)) \<noteq> []" using Cons by simp
    then have "\<not> (\<forall>i\<le>length (x # xs). match_here ci a b (drop i (x # xs)) = [])"
      by blast
    ultimately show ?thesis by blast
  next
    case Nil
    then have "exec_from ci a b pre (x # xs) = exec_from ci a b (pre @ [x]) xs"
      by (rule exec_from_Cons_miss)
    moreover have "(\<forall>i\<le>length (x # xs). match_here ci a b (drop i (x # xs)) = [])
        \<longleftrightarrow> (\<forall>i\<le>length xs. match_here ci a b (drop i xs) = [])"
    proof
      assume h: "\<forall>i\<le>length (x # xs). match_here ci a b (drop i (x # xs)) = []"
      show "\<forall>i\<le>length xs. match_here ci a b (drop i xs) = []"
      proof (intro allI impI)
        fix i assume "i \<le> length xs"
        with h[rule_format, of "Suc i"] show "match_here ci a b (drop i xs) = []" by simp
      qed
    next
      assume h: "\<forall>i\<le>length xs. match_here ci a b (drop i xs) = []"
      show "\<forall>i\<le>length (x # xs). match_here ci a b (drop i (x # xs)) = []"
      proof (intro allI impI)
        fix i assume i: "i \<le> length (x # xs)"
        show "match_here ci a b (drop i (x # xs)) = []"
        proof (cases i)
          case 0
          with Nil show ?thesis by simp
        next
          case (Suc j)
          with i h[rule_format, of j] show ?thesis by simp
        qed
      qed
    qed
    ultimately show ?thesis using Cons.IH[of "pre @ [x]"] by simp
  qed
qed

lemma match_here_split:
  assumes "(s1, r) \<in> set (match_here ci a b s)"
  shows "s = take (length s - length s1) s @ s1"
    and "s1 = take (length s1 - length r) s1 @ r"
proof -
  from assms obtain u g where "s = u @ s1" "s1 = g @ r"
    unfolding match_here_iff by blast
  then show "s = take (length s - length s1) s @ s1"
    and "s1 = take (length s1 - length r) s1 @ r"
    by (metis add_diff_cancel_right' append_eq_conv_conj length_append)+
qed

lemma exec_from_Some:
  assumes "exec_from ci a b pre s = Some (p, m0, g, post)"
  shows "\<exists>i. i \<le> length s \<and> (\<forall>j<i. match_here ci a b (drop j s) = [])
            \<and> match_here ci a b (drop i s) \<noteq> []
            \<and> hd (match_here ci a b (drop i s)) = (g @ post, post)
            \<and> p = pre @ take i s \<and> drop i s = m0 @ g @ post"
  using assms
proof (induction s arbitrary: pre)
  case Nil
  then have "match_here ci a b [] \<noteq> []" using exec_from_Nil_miss by fastforce
  then obtain m rest where mh0: "match_here ci a b [] = m # rest"
    by (cases "match_here ci a b []") auto
  obtain s1 r where "m = (s1, r)" by (cases m)
  with mh0 have mh: "match_here ci a b [] = (s1, r) # rest" by simp
  then have mem: "(s1, r) \<in> set (match_here ci a b [])" by simp
  from match_here_split[OF mem] have "s1 = []" "r = []" by auto
  with Nil mh show ?case by (auto simp: exec_from_hit)
next
  case (Cons x xs)
  show ?case
  proof (cases "match_here ci a b (x # xs)")
    case Nil
    with Cons.prems have "exec_from ci a b (pre @ [x]) xs = Some (p, m0, g, post)"
      by (simp add: exec_from_Cons_miss)
    from Cons.IH[OF this] obtain i where
      i: "i \<le> length xs" "\<forall>j<i. match_here ci a b (drop j xs) = []"
      "match_here ci a b (drop i xs) \<noteq> []"
      "hd (match_here ci a b (drop i xs)) = (g @ post, post)"
      "p = (pre @ [x]) @ take i xs" "drop i xs = m0 @ g @ post"
      by blast
    have "\<forall>j<Suc i. match_here ci a b (drop j (x # xs)) = []"
    proof (intro allI impI)
      fix j assume "j < Suc i"
      then show "match_here ci a b (drop j (x # xs)) = []"
        using Nil i(2) by (cases j) auto
    qed
    with i have "Suc i \<le> length (x # xs) \<and> (\<forall>j<Suc i. match_here ci a b (drop j (x # xs)) = [])
            \<and> match_here ci a b (drop (Suc i) (x # xs)) \<noteq> []
            \<and> hd (match_here ci a b (drop (Suc i) (x # xs))) = (g @ post, post)
            \<and> p = pre @ take (Suc i) (x # xs) \<and> drop (Suc i) (x # xs) = m0 @ g @ post"
      by simp
    then show ?thesis by blast
  next
    case (Cons m rest)
    obtain s1 r where m: "m = (s1, r)" by (cases m)
    with Cons have mem: "(s1, r) \<in> set (match_here ci a b (x # xs))" by simp
    note sp = match_here_split[OF mem]
    from Cons.prems Cons m have res: "p = pre" "m0 = take (length (x # xs) - length s1) (x # xs)"
      "g = take (length s1 - length r) s1" "post = r"
      by (auto simp: exec_from_hit)
    have e1: "s1 = g @ post" unfolding res(3) res(4) by (rule sp(2))
    have "x # xs = m0 @ s1" unfolding res(2) by (rule sp(1))
    with e1 have e2: "x # xs = m0 @ g @ post" by metis
    have "hd (match_here ci a b (x # xs)) = (s1, r)" unfolding Cons m by simp
    then have h: "hd (match_here ci a b (x # xs)) = (g @ post, post)"
      using e1 res(4) by metis
    have ne: "match_here ci a b (x # xs) \<noteq> []" unfolding Cons by simp
    have "0 \<le> length (x # xs) \<and> (\<forall>j<0. match_here ci a b (drop j (x # xs)) = [])
            \<and> match_here ci a b (drop 0 (x # xs)) \<noteq> []
            \<and> hd (match_here ci a b (drop 0 (x # xs))) = (g @ post, post)
            \<and> p = pre @ take 0 (x # xs) \<and> drop 0 (x # xs) = m0 @ g @ post"
      using h ne e2 res(1) by simp
    then show ?thesis by blast
  qed
qed

section \<open>The architecture heuristic\<close>

lemma to_lower_idem [simp]: "to_lower (to_lower c) = to_lower c"
proof (cases "is_upper c")
  case False
  then show ?thesis by (simp add: to_lower_def)
next
  case True
  then have "65 \<le> (of_char c :: nat)" "(of_char c :: nat) \<le> 90"
    by (simp_all add: is_upper_def Let_def)
  then have "\<not> is_upper (char_of ((of_char c :: nat) + 32))"
    by (simp add: is_upper_def Let_def)
  then show ?thesis using True by (simp add: to_lower_def)
qed

lemma matches_lit:
  "matches True (lit t) u r \<longleftrightarrow> map to_lower u = map to_lower t"
proof (induction t arbitrary: u)
  case Nil
  show ?case by simp
next
  case (Cons c cs)
  show ?case
  proof
    assume "matches True (lit (c # cs)) u r"
    then obtain x u2 where "u = [x] @ u2" "eq_char True c x" "matches True (lit cs) u2 r"
      by auto
    then show "map to_lower u = map to_lower (c # cs)"
      using Cons.IH by (simp add: eq_char_def)
  next
    assume h: "map to_lower u = map to_lower (c # cs)"
    then obtain x u2 where u: "u = x # u2" by (cases u) auto
    with h have "to_lower x = to_lower c" and "map to_lower u2 = map to_lower cs" by simp_all
    then have "u = [x] @ u2 \<and> matches True (Lit c) [x] (u2 @ r) \<and> matches True (lit cs) u2 r"
      using u Cons.IH by (simp add: eq_char_def)
    then show "matches True (lit (c # cs)) u r" by (simp del: append.simps) blast
  qed
qed

lemma test_iff:
  "test ci e s \<longleftrightarrow> (\<exists>i\<le>length s. \<exists>u r. drop i s = u @ r \<and> matches ci e u r)"
proof -
  have "test ci e s \<longleftrightarrow> \<not> (\<forall>i\<le>length s. match_here ci e Eps (drop i s) = [])"
    by (simp add: test_def exec_def exec_from_None)
  also have "\<dots> \<longleftrightarrow> (\<exists>i\<le>length s. ms ci e (drop i s) \<noteq> [])"
    by (simp add: match_here_Eps)
  also have "\<dots> \<longleftrightarrow> (\<exists>i\<le>length s. \<exists>r. r \<in> set (ms ci e (drop i s)))"
    by (metis all_not_in_conv set_empty)
  also have "\<dots> \<longleftrightarrow> (\<exists>i\<le>length s. \<exists>u r. drop i s = u @ r \<and> matches ci e u r)"
    by (simp add: ms_iff) blast
  finally show ?thesis .
qed

lemma occurs_ci_iff:
  "occurs_ci t s \<longleftrightarrow> (\<exists>i\<le>length s. map to_lower (take (length t) (drop i s)) = map to_lower t)"
proof -
  have "occurs_ci t s \<longleftrightarrow> (\<exists>i\<in>{0..<Suc (length s)}.
          map to_lower (take (length t) (drop i s)) = map to_lower t)"
    unfolding occurs_ci_def list_ex_iff set_upt ..
  also have "\<dots> \<longleftrightarrow> (\<exists>i\<le>length s.
          map to_lower (take (length t) (drop i s)) = map to_lower t)"
    by (auto simp: less_Suc_eq_le)
  finally show ?thesis .
qed

lemma starts_iff:
  "(\<exists>u r. z = u @ r \<and> map to_lower u = map to_lower t)
   \<longleftrightarrow> map to_lower (take (length t) z) = map to_lower t"
proof
  assume "\<exists>u r. z = u @ r \<and> map to_lower u = map to_lower t"
  then obtain u r where z: "z = u @ r" and u: "map to_lower u = map to_lower t" by blast
  from u have "length u = length t" by (metis length_map)
  with z u show "map to_lower (take (length t) z) = map to_lower t" by simp
next
  assume "map to_lower (take (length t) z) = map to_lower t"
  then have "z = take (length t) z @ drop (length t) z
      \<and> map to_lower (take (length t) z) = map to_lower t" by simp
  then show "\<exists>u r. z = u @ r \<and> map to_lower u = map to_lower t" by blast
qed

lemma test_lit: "test True (lit t) s \<longleftrightarrow> occurs_ci t s"
  unfolding test_iff occurs_ci_iff matches_lit starts_iff ..

lemma test_Alt: "test ci (Alt a b) s \<longleftrightarrow> test ci a s \<or> test ci b s"
  unfolding test_iff by auto

lemma occurs_ci_infix:
  "occurs_ci t s \<longleftrightarrow> (\<exists>pre post. map to_lower s = pre @ map to_lower t @ post)"
proof
  assume "occurs_ci t s"
  then obtain i where "map to_lower (take (length t) (drop i s)) = map to_lower t"
    unfolding occurs_ci_iff by blast
  moreover have "s = take i s @ take (length t) (drop i s) @ drop (length t) (drop i s)"
    by (metis append_take_drop_id)
  then have "map to_lower s = map to_lower (take i s)
      @ map to_lower (take (length t) (drop i s))
      @ map to_lower (drop (length t) (drop i s))"
    by (metis map_append)
  ultimately show "\<exists>pre post. map to_lower s = pre @ map to_lower t @ post" by metis
next
  assume "\<exists>pre post. map to_lower s = pre @ map to_lower t @ post"
  then obtain pre post where h: "map to_lower s = pre @ map to_lower t @ post" by blast
  then have len: "length pre \<le> length s"
    by (metis le_add1 length_append length_map)
  have "map to_lower (take (length t) (drop (length pre) s))
        = take (length t) (drop (length pre) (map to_lower s))"
    by (simp add: take_map drop_map)
  also have "\<dots> = map to_lower t" unfolding h by simp
  finally show "occurs_ci t s" unfolding occurs_ci_iff using len by blast
qed

lemma to_lower_comp: "to_lower \<circ> to_lower = to_lower"
  by (rule ext) simp

lemma occurs_ci_lower: "occurs_ci t (map to_lower s) = occurs_ci t s"
  unfolding occurs_ci_infix by (simp add: to_lower_comp)

lemma extractArch_spec: "extractArchFromFilename name = arch_spec name"
  unfolding extractArchFromFilename_def re_arm_def re_x64_def re_x86_def re_universal_def
    test_Alt test_lit
  by (simp add: arch_spec_def arch_groups_def)

text \<open>
  C7. \<open>extractArchFromFilename\<close> is the heuristic of the specification: the tag of the
  first group, in the order arm64, x64, ia32, universal, one of whose tokens occurs in the
  name, and no tag when no token occurs. A token occurs when, both sides folded to lower
  case, it is a contiguous part of the name; so the result does not depend on the case of
  the name. The function is total: it returns a tag or nothing for every name.
\<close>

theorem arch_heuristic:
  "extractArchFromFilename name = arch_spec name
   \<and> (occurs_ci token name
        \<longleftrightarrow> (\<exists>pre post. map to_lower name = pre @ map to_lower token @ post))
   \<and> extractArchFromFilename (map to_lower name) = extractArchFromFilename name
   \<and> extractArchFromFilename ''app-ARM64.zip'' = Some ''arm64''
   \<and> extractArchFromFilename ''app-arm64.zip'' = Some ''arm64''
   \<and> extractArchFromFilename ''app.zip'' = None"
proof (intro conjI)
  show "extractArchFromFilename name = arch_spec name" by (rule extractArch_spec)
  show "occurs_ci token name
        \<longleftrightarrow> (\<exists>pre post. map to_lower name = pre @ map to_lower token @ post)"
    by (rule occurs_ci_infix)
  show "extractArchFromFilename (map to_lower name) = extractArchFromFilename name"
    by (simp add: extractArch_spec arch_spec_def occurs_ci_lower)
  show "extractArchFromFilename ''app-ARM64.zip'' = Some ''arm64''" by code_simp
  show "extractArchFromFilename ''app-arm64.zip'' = Some ''arm64''" by code_simp
  show "extractArchFromFilename ''app.zip'' = None" by code_simp
qed

theorem arch_heuristic_witness:
  "extractArchFromFilename ''App-x86_64.dmg'' = Some ''x64''
   \<and> extractArchFromFilename ''APP-X86_64.DMG'' = Some ''x64''"
proof -
  have spec: "arch_spec ''App-x86_64.dmg'' = Some ''x64''" by code_simp
  have low: "map to_lower ''APP-X86_64.DMG'' = map to_lower ''App-x86_64.dmg''" by code_simp
  from arch_heuristic[of "''App-x86_64.dmg''"] arch_heuristic[of "''APP-X86_64.DMG''"] spec low
  show ?thesis by metis
qed

section \<open>The version heuristic\<close>

lemma matches_core: "matches False re_core u r \<longleftrightarrow> is_core u"
proof
  assume "matches False re_core u r"
  then obtain a b c where "u = a @ ''.'' @ b @ ''.'' @ c" "digits a" "digits b" "digits c"
    unfolding re_core_def by (auto simp: eq_char_def digits_def)
  then show "is_core u" unfolding is_core_def by blast
next
  assume "is_core u"
  then obtain a b c where u: "u = a @ ''.'' @ b @ ''.'' @ c"
    and d: "digits a" "digits b" "digits c"
    unfolding is_core_def by blast
  have 1: "matches False (Seq (Lit CHR ''.'') (PlusCls is_digit)) (''.'' @ c) r"
    using d(3) by (simp add: eq_char_def digits_def)
  have 2: "matches False (Seq (PlusCls is_digit) (Seq (Lit CHR ''.'') (PlusCls is_digit)))
             (b @ ''.'' @ c) r"
    using d(2) 1 by (simp only: matches.simps(3)) (metis digits_def matches.simps(2))
  have 3: "matches False (Seq (Lit CHR ''.'')
             (Seq (PlusCls is_digit) (Seq (Lit CHR ''.'') (PlusCls is_digit))))
             (''.'' @ b @ ''.'' @ c) r"
    using 2 by (simp only: matches.simps(3)) (metis eq_char_def matches.simps(1))
  show "matches False re_core u r"
    unfolding re_core_def u using d(1) 3
    by (simp only: matches.simps(3)) (metis digits_def matches.simps(2))
qed

lemma matches_prerelease:
  "matches False re_prerelease u r \<longleftrightarrow> u = [] \<or> (\<exists>q. u = ''-'' @ q \<and> is_prerelease q)"
  unfolding re_prerelease_def by (auto simp: eq_char_def is_prerelease_def)

lemma matches_version: "matches False (Seq re_core re_prerelease) u r \<longleftrightarrow> is_version u"
proof
  assume "matches False (Seq re_core re_prerelease) u r"
  then obtain c p where "u = c @ p" "is_core c" "p = [] \<or> (\<exists>q. p = ''-'' @ q \<and> is_prerelease q)"
    by (auto simp: matches_core matches_prerelease)
  then show "is_version u" unfolding is_version_def by auto
next
  assume "is_version u"
  then consider "is_core u" | c q where "u = c @ ''-'' @ q" "is_core c" "is_prerelease q"
    unfolding is_version_def by blast
  then show "matches False (Seq re_core re_prerelease) u r"
  proof cases
    case 1
    then have "u = u @ [] \<and> matches False re_core u ([] @ r) \<and> matches False re_prerelease [] r"
      by (simp add: matches_core matches_prerelease)
    then show ?thesis by (simp only: matches.simps(3)) blast
  next
    case 2
    then have "u = c @ (''-'' @ q) \<and> matches False re_core c ((''-'' @ q) @ r)
        \<and> matches False re_prerelease (''-'' @ q) r"
      by (simp add: matches_core matches_prerelease)
    then show ?thesis by (simp only: matches.simps(3)) blast
  qed
qed

lemma core_is_version: "is_core v \<Longrightarrow> is_version v"
  by (simp add: is_version_def)

lemma version_has_core: "is_version v \<Longrightarrow> \<exists>c rest. v = c @ rest \<and> is_core c"
  unfolding is_version_def by (metis append_Nil2)

lemma digit_not_hyphen: "digits a \<Longrightarrow> CHR ''-'' \<notin> set a"
  unfolding digits_def list_all_iff by (auto simp: is_digit_def Let_def)

lemma core_no_hyphen: "is_core v \<Longrightarrow> CHR ''-'' \<notin> set v"
  unfolding is_core_def using digit_not_hyphen by auto

lemma hd_concat_map:
  assumes "concat (map F xs) \<noteq> []" and "\<And>x. x \<in> set xs \<Longrightarrow> F x \<noteq> []"
  shows "xs \<noteq> [] \<and> hd (concat (map F xs)) = hd (F (hd xs))"
proof (cases xs)
  case Nil
  with assms(1) show ?thesis by simp
next
  case (Cons x rest)
  with assms(2)[of x] show ?thesis by simp
qed

lemma hd_match_here:
  assumes "match_here ci a b s \<noteq> []" and "hd (match_here ci a b s) = (s1, r)"
  shows "ms ci b s1 \<noteq> [] \<and> r = hd (ms ci b s1)"
proof -
  have gen: "concat (map (\<lambda>s1. map (\<lambda>r. (s1, r)) (ms ci b s1)) xs) \<noteq> [] \<Longrightarrow>
        hd (concat (map (\<lambda>s1. map (\<lambda>r. (s1, r)) (ms ci b s1)) xs)) = (s1, r) \<Longrightarrow>
        ms ci b s1 \<noteq> [] \<and> r = hd (ms ci b s1)" for xs
  proof (induction xs)
    case Nil
    then show ?case by simp
  next
    case (Cons x xs)
    show ?case
    proof (cases "ms ci b x")
      case Nil
      with Cons show ?thesis by simp
    next
      case (Cons y ys)
      with Cons.prems(2) have "s1 = x" "r = y" by simp_all
      with Cons show ?thesis by simp
    qed
  qed
  from gen[of "ms ci a s"] assms show ?thesis by (simp add: match_here_def)
qed

lemma version_found:
  assumes "exec False (Opt (Lit CHR ''v'')) (Seq re_core re_prerelease) s = Some (p, m0, g, post)"
  shows "is_version g \<and> s = p @ m0 @ g @ post
         \<and> \<not> (is_core g \<and> (\<exists>x rest. post = CHR ''-'' # x # rest \<and> is_prerelease_char x))"
proof -
  let ?A = "Opt (Lit CHR ''v'')"
  let ?B = "Seq re_core re_prerelease"
  let ?H = "Seq (Lit CHR ''-'') (PlusCls is_prerelease_char)"
  from exec_from_Some[OF assms[unfolded exec_def]] obtain i where
    ne: "match_here False ?A ?B (drop i s) \<noteq> []"
    and h: "hd (match_here False ?A ?B (drop i s)) = (g @ post, post)"
    and p: "p = take i s" and d: "drop i s = m0 @ g @ post"
    by auto
  have s: "s = p @ m0 @ g @ post" unfolding p d[symmetric] by simp
  have "(g @ post, post) \<in> set (match_here False ?A ?B (drop i s))"
    using hd_in_set[OF ne] unfolding h .
  then obtain g' where gg: "g @ post = g' @ post" and mg: "matches False ?B g' post"
    unfolding match_here_iff by blast
  from gg have "g' = g" by simp
  with mg have "matches False ?B g post" by simp
  then have v: "is_version g" by (simp only: matches_version)
  have pref: False if core: "is_core g" and nx: "post = CHR ''-'' # x # rest"
    and x: "is_prerelease_char x" for x rest
  proof -
    from hd_match_here[OF ne h] have b: "ms False ?B (g @ post) \<noteq> []"
      and r: "post = hd (ms False ?B (g @ post))" by blast+
    have F: "\<And>z. ms False re_prerelease z \<noteq> []" by (simp add: re_prerelease_def)
    from b have c0: "concat (map (ms False re_prerelease) (ms False re_core (g @ post))) \<noteq> []"
      by simp
    from hd_concat_map[OF c0 F] have cs: "ms False re_core (g @ post) \<noteq> []"
      and hd_eq: "hd (ms False ?B (g @ post))
                  = hd (ms False re_prerelease (hd (ms False re_core (g @ post))))"
      by simp_all
    define r1 where "r1 = hd (ms False re_core (g @ post))"
    from cs have "r1 \<in> set (ms False re_core (g @ post))" unfolding r1_def by simp
    then obtain c where c: "g @ post = c @ r1" "is_core c"
      unfolding ms_iff matches_core by blast
    have "ms False re_prerelease r1 = ms False ?H r1 @ [r1]"
      unfolding re_prerelease_def by (rule ms.simps(5))
    then have post_eq: "post = hd (ms False ?H r1 @ [r1])"
      using r hd_eq unfolding r1_def[symmetric] by (simp del: ms.simps)
    show False
    proof (cases "ms False ?H r1")
      case Nil
      have "post = r1" using post_eq unfolding Nil by simp
      with nx have r1: "r1 = ([CHR ''-''] @ [x]) @ rest" by simp
      have "matches False (Lit CHR ''-'') [CHR ''-''] ([x] @ rest)"
        by (simp add: eq_char_def)
      moreover have "matches False (PlusCls is_prerelease_char) [x] rest" using x by simp
      ultimately have "matches False ?H ([CHR ''-''] @ [x]) rest"
        unfolding matches.simps(3) by blast
      with r1 have "rest \<in> set (ms False ?H r1)" unfolding ms_iff by blast
      with Nil show False by simp
    next
      case (Cons y ys)
      have "post = y" using post_eq unfolding Cons by simp
      then have "post \<in> set (ms False ?H r1)" unfolding Cons by simp
      then obtain u where u: "r1 = u @ post" "matches False ?H u post"
        unfolding ms_iff by blast
      then obtain q where uq: "u = CHR ''-'' # q" by (auto simp: eq_char_def)
      have "g @ post = (c @ CHR ''-'' # q) @ post" unfolding c(1) u(1) uq by simp
      then have "g = c @ CHR ''-'' # q" by (simp only: append_same_eq)
      then have "CHR ''-'' \<in> set g" by simp
      with core_no_hyphen[OF core] show False by simp
    qed
  qed
  from v s pref show ?thesis by blast
qed

lemma nonempty_has_pair:
  assumes "(xs :: ('a \<times> 'b) list) \<noteq> []"
  obtains x y where "(x, y) \<in> set xs"
proof -
  from assms obtain m rest where "xs = m # rest" by (cases xs) auto
  then have "(fst m, snd m) \<in> set xs" by simp
  then show ?thesis by (rule that)
qed

lemma version_absent:
  "exec False (Opt (Lit CHR ''v'')) (Seq re_core re_prerelease) s = None
   \<longleftrightarrow> \<not> (\<exists>pre c post. s = pre @ c @ post \<and> is_core c)"
proof -
  let ?A = "Opt (Lit CHR ''v'')"
  let ?B = "Seq re_core re_prerelease"
  have main: "(\<exists>i\<le>length s. match_here False ?A ?B (drop i s) \<noteq> [])
        \<longleftrightarrow> (\<exists>pre c post. s = pre @ c @ post \<and> is_core c)"
  proof
    assume "\<exists>i\<le>length s. match_here False ?A ?B (drop i s) \<noteq> []"
    then obtain i where "match_here False ?A ?B (drop i s) \<noteq> []" by blast
    then obtain s1 r where "(s1, r) \<in> set (match_here False ?A ?B (drop i s))"
      by (rule nonempty_has_pair)
    then obtain u g where d: "drop i s = u @ s1" "s1 = g @ r" and "matches False ?B g r"
      unfolding match_here_iff by blast
    then have "is_version g" using matches_version by blast
    from version_has_core[OF this] obtain c rest where c: "g = c @ rest" "is_core c" by blast
    have "s = take i s @ drop i s" by simp
    then have "s = (take i s @ u) @ c @ (rest @ r)" unfolding d c(1) by simp
    with c(2) show "\<exists>pre c post. s = pre @ c @ post \<and> is_core c" by blast
  next
    assume "\<exists>pre c post. s = pre @ c @ post \<and> is_core c"
    then obtain pre c post where s: "s = pre @ c @ post" and c: "is_core c" by blast
    have "matches False ?B c post"
      using core_is_version[OF c] by (simp only: matches_version)
    then have "c @ post = [] @ (c @ post) \<and> c @ post = c @ post
        \<and> matches False ?A [] (c @ post) \<and> matches False ?B c post"
      by simp
    then have "(c @ post, post) \<in> set (match_here False ?A ?B (c @ post))"
      unfolding match_here_iff by blast
    then have "match_here False ?A ?B (c @ post) \<noteq> []" by auto
    moreover have "drop (length pre) s = c @ post" "length pre \<le> length s"
      unfolding s by simp_all
    ultimately have "length pre \<le> length s
        \<and> match_here False ?A ?B (drop (length pre) s) \<noteq> []" by simp
    then show "\<exists>i\<le>length s. match_here False ?A ?B (drop i s) \<noteq> []" by blast
  qed
  have "exec False ?A ?B s = None
        \<longleftrightarrow> (\<forall>i\<le>length s. match_here False ?A ?B (drop i s) = [])"
    unfolding exec_def by (rule exec_from_None)
  also have "\<dots> \<longleftrightarrow> \<not> (\<exists>i\<le>length s. match_here False ?A ?B (drop i s) \<noteq> [])"
    by blast
  also note main
  finally show ?thesis .
qed

lemma fallback_dead:
  assumes "exec False (Opt (Lit CHR ''v'')) (Seq re_core re_prerelease) s = None"
  shows "exec False (Opt (Lit CHR ''v'')) re_core s = None"
proof -
  let ?A = "Opt (Lit CHR ''v'')"
  let ?B = "Seq re_core re_prerelease"
  have "match_here False ?A re_core z = []" if "match_here False ?A ?B z = []" for z
  proof (rule ccontr)
    assume "match_here False ?A re_core z \<noteq> []"
    then obtain s1 r where "(s1, r) \<in> set (match_here False ?A re_core z)"
      by (rule nonempty_has_pair)
    then obtain u g where z: "z = u @ s1" "s1 = g @ r" "matches False ?A u s1"
      and "matches False re_core g r"
      unfolding match_here_iff by blast
    then have "matches False ?B g r"
      by (simp only: matches_version matches_core core_is_version)
    with z have "(s1, r) \<in> set (match_here False ?A ?B z)"
      unfolding match_here_iff by blast
    with that show False by simp
  qed
  with assms show ?thesis unfolding exec_def exec_from_None by blast
qed

lemma extractVersion_full:
  "extractVersionFromFilename f
   = group1 (exec False (Opt (Lit CHR ''v'')) (Seq re_core re_prerelease)
               (replace_empty re_ext f))"
proof (cases "exec False (Opt (Lit CHR ''v'')) (Seq re_core re_prerelease)
               (replace_empty re_ext f)")
  case None
  from fallback_dead[OF this] None show ?thesis
    unfolding extractVersionFromFilename_def Let_def by (simp add: group1_def)
next
  case (Some m)
  obtain p m0 g post where "m = (p, m0, g, post)" by (cases m)
  with Some show ?thesis
    unfolding extractVersionFromFilename_def Let_def by (simp add: group1_def)
qed


end
